theory Spec2Isabelle
  imports Complex_Main "HOL-Library.Word"
begin

unbundle bit_operations_syntax

section \<open>Values of the program\<close>

text \<open>
  The program is TypeScript (\<open>VoxelGrid.ts\<close>, \<open>utils.ts\<close>, \<open>index.ts\<close>). Its numbers
  are modelled as exact rationals: every finite double is one, and the arithmetic of the
  program (products of sizes and resolution, halving, division by the resolution) is taken
  without rounding. \<open>NaN\<close> and the infinities are not values of the model.
\<close>

type_synonym number = rat

text \<open>The errors the program can raise: the two built-in ones and the thrown string.\<close>

datatype error = TypeError | RangeError | Thrown string

text \<open>
  A statement either completes or throws; in both cases it leaves a state behind.
\<close>

datatype 's outcome = Normal 's | Throw error 's

fun state_of :: "'s outcome \<Rightarrow> 's" where
  "state_of (Normal s) = s"
| "state_of (Throw e s) = s"

fun is_Normal :: "'s outcome \<Rightarrow> bool" where
  "is_Normal (Normal s) = True"
| "is_Normal (Throw e s) = False"

fun thrown :: "'s outcome \<Rightarrow> error option" where
  "thrown (Normal s) = None"
| "thrown (Throw e s) = Some e"

text \<open>Sequencing of statements: a throw skips what follows.\<close>

fun and_then :: "'s outcome \<Rightarrow> ('s \<Rightarrow> 's outcome) \<Rightarrow> 's outcome" where
  "and_then (Normal s) f = f s"
| "and_then (Throw e s) f = Throw e s"

subsection \<open>Vectors (three.js \<open>Vector3\<close>)\<close>

text \<open>
  The fields \<open>x\<close>, \<open>y\<close>, \<open>z\<close> of the source are named \<open>vx\<close>, \<open>vy\<close>, \<open>vz\<close>, since
  \<open>x\<close>, \<open>y\<close>, \<open>z\<close> are the loop variables of \<open>marchCubes\<close>.
\<close>

record Vector3 =
  vx :: number
  vy :: number
  vz :: number

definition vec :: "number \<Rightarrow> number \<Rightarrow> number \<Rightarrow> Vector3" where
  "vec a b c = \<lparr>vx = a, vy = b, vz = c\<rparr>"

definition add :: "Vector3 \<Rightarrow> Vector3 \<Rightarrow> Vector3" where
  "add v w = vec (vx v + vx w) (vy v + vy w) (vz v + vz w)"

definition multiplyScalar :: "Vector3 \<Rightarrow> number \<Rightarrow> Vector3" where
  "multiplyScalar v s = vec (vx v * s) (vy v * s) (vz v * s)"

subsection \<open>Arrays\<close>

text \<open>
  A number is an integer when it equals its floor. Reading \<open>xs[k]\<close> of an array without
  holes gives the element when \<open>k\<close> is an integer within the length, and \<open>undefined\<close>
  (\<open>None\<close>) for every other key: a negative one, a fraction, one past the end.
\<close>

definition is_int :: "number \<Rightarrow> bool" where
  "is_int k \<longleftrightarrow> of_int \<lfloor>k\<rfloor> = k"

definition js_index :: "'a list \<Rightarrow> number \<Rightarrow> 'a option" where
  "js_index xs k =
     (if is_int k \<and> 0 \<le> k \<and> k < of_nat (length xs) then Some (xs ! nat \<lfloor>k\<rfloor>) else None)"

text \<open>
  The innermost arrays of the grid are the only ones the program assigns into. Such an
  array is kept as a JavaScript object: its \<open>length\<close> and its properties by key.
  An assignment \<open>row[k] = v\<close> never fails: for an array index \<open>k\<close> (an integer from 0 to
  \<open>2^32 - 2\<close>) at or past the length it extends the array, for any other key it sets an
  ordinary property and leaves the length alone.
\<close>

record row =
  len :: nat
  cells :: "number \<Rightarrow> number option"

definition is_array_index :: "number \<Rightarrow> bool" where
  "is_array_index k \<longleftrightarrow> is_int k \<and> 0 \<le> k \<and> k < 2 ^ 32 - 1"

definition row_set :: "row \<Rightarrow> number \<Rightarrow> number \<Rightarrow> row" where
  "row_set r k v =
     \<lparr>len = (if is_array_index k \<and> len r \<le> nat \<lfloor>k\<rfloor> then nat \<lfloor>k\<rfloor> + 1 else len r),
      cells = (cells r)(k \<mapsto> v)\<rparr>"

text \<open>
  \<open>Array(n)\<close> with a number \<open>n\<close> throws a RangeError unless \<open>n\<close> is an integer from 0 to
  \<open>2^32 - 1\<close>; \<open>.fill(v)\<close> then stores \<open>v\<close> at every index below the length.
\<close>

definition Array_fill :: "number \<Rightarrow> number \<Rightarrow> error + row" where
  "Array_fill n v =
     (if is_int n \<and> 0 \<le> n \<and> n \<le> 2 ^ 32 - 1
      then Inr \<lparr>len = nat \<lfloor>n\<rfloor>,
                cells = (\<lambda>k. if is_int k \<and> 0 \<le> k \<and> k < n then Some v else None)\<rparr>
      else Inl RangeError)"

text \<open>
  \<open>Array.from({ length: n }, f)\<close>: the length is \<open>ToLength(n)\<close> (truncated towards zero,
  at least 0, at most \<open>2^53 - 1\<close>); creating the array throws a RangeError above
  \<open>2^32 - 1\<close>; then \<open>f\<close> is called for the indices \<open>0, 1, ...\<close> in this order, and the
  first call that throws ends the whole expression.
\<close>

definition ToLength :: "number \<Rightarrow> int" where
  "ToLength n = (if n \<le> 0 then 0 else min \<lfloor>n\<rfloor> (2 ^ 53 - 1))"

primrec from_calls :: "nat \<Rightarrow> (nat \<Rightarrow> error + 'a) \<Rightarrow> error + 'a list" where
  "from_calls 0 f = Inr []"
| "from_calls (Suc n) f =
     (case from_calls n f of
        Inl e \<Rightarrow> Inl e
      | Inr xs \<Rightarrow> (case f n of Inl e \<Rightarrow> Inl e | Inr v \<Rightarrow> Inr (xs @ [v])))"

definition Array_from :: "number \<Rightarrow> (nat \<Rightarrow> error + 'a) \<Rightarrow> error + 'a list" where
  "Array_from n f =
     (if ToLength n > 2 ^ 32 - 1 then Inl RangeError else from_calls (nat (ToLength n)) f)"

section \<open>The voxel grid\<close>

text \<open>
  The class \<open>VoxelGrid\<close>. The field \<open>size\<close> is named \<open>sizeV\<close> here; \<open>mesh\<close> holds a
  reference into the store of mesh objects.
\<close>

record VoxelGrid =
  resolution :: number
  sizeV :: Vector3
  isovalue :: number
  position :: Vector3
  grid :: "row list list"
  meshVertexes :: "Vector3 list"
  mesh :: "nat option"

subsection \<open>\<open>initializeGrid\<close>\<close>

text \<open>
  One seeding statement \<open>this.grid[a][b][c] = 1\<close>: reading \<open>this.grid[a]\<close> and then
  \<open>[b]\<close> of it throws a TypeError when the row before is \<open>undefined\<close>; the final
  assignment is \<open>row_set\<close>. Every innermost array is an object of its own (each comes from
  its own call of the callback), so the assignment changes this one row only.
\<close>

definition seed :: "number \<Rightarrow> number \<Rightarrow> number \<Rightarrow> VoxelGrid \<Rightarrow> VoxelGrid outcome" where
  "seed a b c g =
     (case js_index (grid g) a of
        None \<Rightarrow> Throw TypeError g
      | Some plane \<Rightarrow>
          (case js_index plane b of
             None \<Rightarrow> Throw TypeError g
           | Some r \<Rightarrow>
               Normal (g\<lparr>grid := (grid g)[nat \<lfloor>a\<rfloor> := plane[nat \<lfloor>b\<rfloor> := row_set r c 1]]\<rparr>)))"

definition allocate :: "VoxelGrid \<Rightarrow> error + row list list" where
  "allocate g =
     Array_from (vx (sizeV g) * resolution g) (\<lambda>_.
       Array_from (vy (sizeV g) * resolution g) (\<lambda>_.
         Array_fill (vz (sizeV g) * resolution g) (- 1)))"

definition initializeGrid :: "VoxelGrid \<Rightarrow> VoxelGrid outcome" where
  "initializeGrid g =
     (case allocate g of
        Inl e \<Rightarrow> Throw e g
      | Inr a \<Rightarrow>
          (let cx = (vx (sizeV g) / 2) * resolution g;
               cy = (vy (sizeV g) / 2) * resolution g;
               cz = (vz (sizeV g) / 2) * resolution g
           in and_then (and_then (and_then (and_then (and_then (and_then (and_then
                (seed cx cy cz (g\<lparr>grid := a\<rparr>))
                (seed (cx + 1) cy cz))
                (seed (cx + 2) cy cz))
                (seed (cx + 2) (cy - 1) cz))
                (seed (cx + 2) (cy - 2) cz))
                (seed (cx + 2) (cy - 3) cz))
                (seed (cx + 3) cy cz))
                (seed (cx + 4) cy cz)))"

text \<open>
  The constructor stores its arguments in an object whose other fields have their
  initial values (\<open>grid\<close> and \<open>meshVertexes\<close> empty, \<open>mesh\<close> undefined) and calls
  \<open>initializeGrid\<close>.
\<close>

definition unallocated :: "number \<Rightarrow> Vector3 \<Rightarrow> number \<Rightarrow> Vector3 \<Rightarrow> VoxelGrid" where
  "unallocated res sz isoval pos =
     \<lparr>resolution = res, sizeV = sz, isovalue = isoval, position = pos,
      grid = [], meshVertexes = [], mesh = None\<rparr>"

definition constructor :: "number \<Rightarrow> Vector3 \<Rightarrow> number \<Rightarrow> Vector3 \<Rightarrow> VoxelGrid outcome" where
  "constructor res sz isoval pos = initializeGrid (unallocated res sz isoval pos)"

subsection \<open>The tables of \<open>marchingConstants\<close>\<close>

text \<open>
  \<open>VoxelGrid.ts\<close> imports \<open>CORNER_ARRAY\<close>, \<open>EDGE_ARRAY\<close> and \<open>TRIANGLE_TABLE\<close> from a
  module that is not among the sources. The functions below take the three tables as a
  parameter: the corner offsets (vectors), the edges (each an array of vectors, of which
  the code reads entries 0 and 1) and the triangle table (an array of arrays of numbers).
\<close>

record MarchingConstants =
  CORNER_ARRAY :: "Vector3 list"
  EDGE_ARRAY :: "Vector3 list list"
  TRIANGLE_TABLE :: "number list list"

subsection \<open>\<open>marchCubes\<close>\<close>

text \<open>
  The test \<open>this.grid[a][b][c] > this.isovalue\<close>. The first two reads throw a TypeError
  on an \<open>undefined\<close> row; an \<open>undefined\<close> innermost value compares as false.
\<close>

definition is_above :: "VoxelGrid \<Rightarrow> number \<Rightarrow> number \<Rightarrow> number \<Rightarrow> error + bool" where
  "is_above g a b c =
     (case js_index (grid g) a of
        None \<Rightarrow> Inl TypeError
      | Some plane \<Rightarrow>
          (case js_index plane b of
             None \<Rightarrow> Inl TypeError
           | Some r \<Rightarrow>
               Inr (case cells r c of None \<Rightarrow> False | Some v \<Rightarrow> v > isovalue g)))"

text \<open>
  The loop over \<open>CORNER_ARRAY.entries()\<close>, from entry \<open>i\<close> on. \<open>cubeConfigByte\<close> is a
  32-bit integer under \<open>|=\<close>, and \<open>1 << i\<close> shifts by \<open>i\<close> modulo 32.
\<close>

fun corners_loop ::
  "VoxelGrid \<Rightarrow> nat \<Rightarrow> nat \<Rightarrow> nat \<Rightarrow> nat \<Rightarrow> Vector3 list \<Rightarrow> 32 word \<Rightarrow> error + 32 word" where
  "corners_loop g x y z i [] cubeConfigByte = Inr cubeConfigByte"
| "corners_loop g x y z i (corner # rest) cubeConfigByte =
     (case is_above g (of_nat x + vx corner) (of_nat y + vy corner) (of_nat z + vz corner) of
        Inl e \<Rightarrow> Inl e
      | Inr b \<Rightarrow>
          corners_loop g x y z (Suc i) rest
            (if b then cubeConfigByte OR push_bit (i mod 32) 1 else cubeConfigByte))"

definition cubeConfig :: "MarchingConstants \<Rightarrow> VoxelGrid \<Rightarrow> nat \<Rightarrow> nat \<Rightarrow> nat \<Rightarrow> error + 32 word" where
  "cubeConfig K g x y z = corners_loop g x y z 0 (CORNER_ARRAY K) 0"

text \<open>The two local functions of the loop body.\<close>

definition createScaledVector :: "Vector3 \<Rightarrow> number \<Rightarrow> Vector3" where
  "createScaledVector point res = vec (vx point / res) (vy point / res) (vz point / res)"

text \<open>
  \<open>getEdgeMidpoint\<close> receives \<open>EDGE_ARRAY[edgeIndex]\<close>, which is \<open>undefined\<close> for an index
  that is not in the table; reading \<open>edge[0]\<close> then throws, and so does reading \<open>point.x\<close>
  of a missing entry.
\<close>

definition getEdgeMidpoint :: "Vector3 list option \<Rightarrow> number \<Rightarrow> error + Vector3" where
  "getEdgeMidpoint edge res =
     (case edge of
        None \<Rightarrow> Inl TypeError
      | Some ps \<Rightarrow>
          (case js_index ps 0 of
             None \<Rightarrow> Inl TypeError
           | Some p0 \<Rightarrow>
               (case js_index ps 1 of
                  None \<Rightarrow> Inl TypeError
                | Some p1 \<Rightarrow>
                    Inr (multiplyScalar
                          (add (createScaledVector p0 res) (createScaledVector p1 res))
                          (1 / 2)))))"

text \<open>\<open>EDGE_ARRAY[triangles[j]]\<close>, where \<open>triangles[j]\<close> may itself be \<open>undefined\<close>.\<close>

definition edge_at :: "MarchingConstants \<Rightarrow> number list \<Rightarrow> nat \<Rightarrow> Vector3 list option" where
  "edge_at K triangles j =
     (case js_index triangles (of_nat j) of
        None \<Rightarrow> None
      | Some edgeIndex \<Rightarrow> js_index (EDGE_ARRAY K) edgeIndex)"

text \<open>
  The \<open>while\<close> loop over one row of the triangle table, from position \<open>i\<close> on. It
  reads \<open>this.resolution\<close> and pushes three vertices to \<open>this.meshVertexes\<close> for every
  triple of edge indices; the three midpoints are computed before the push, so a throw
  among them pushes nothing.
\<close>

function triangles_loop ::
  "MarchingConstants \<Rightarrow> nat \<Rightarrow> nat \<Rightarrow> nat \<Rightarrow> number list \<Rightarrow> nat \<Rightarrow> VoxelGrid
     \<Rightarrow> VoxelGrid outcome" where
  "triangles_loop K x y z triangles i g =
     (if i < length triangles then
        if triangles ! i = - 1 then Normal g
        else
          (case getEdgeMidpoint (edge_at K triangles i) (resolution g) of
             Inl e \<Rightarrow> Throw e g
           | Inr vertex1 \<Rightarrow>
          (case getEdgeMidpoint (edge_at K triangles (i + 1)) (resolution g) of
             Inl e \<Rightarrow> Throw e g
           | Inr vertex2 \<Rightarrow>
          (case getEdgeMidpoint (edge_at K triangles (i + 2)) (resolution g) of
             Inl e \<Rightarrow> Throw e g
           | Inr vertex3 \<Rightarrow>
               triangles_loop K x y z triangles (i + 3)
                 (g\<lparr>meshVertexes := meshVertexes g @
                    [add (vec (of_nat x / resolution g) (of_nat y / resolution g)
                            (of_nat z / resolution g)) vertex1,
                     add (vec (of_nat x / resolution g) (of_nat y / resolution g)
                            (of_nat z / resolution g)) vertex2,
                     add (vec (of_nat x / resolution g) (of_nat y / resolution g)
                            (of_nat z / resolution g)) vertex3]\<rparr>))))
      else Normal g)"
  by pat_completeness auto
termination
  by (relation "measure (\<lambda>(K, x, y, z, triangles, i, g). length triangles - i)") auto

declare triangles_loop.simps [simp del]

text \<open>
  The body of the innermost \<open>for\<close> loop: the cell at \<open>(x, y, z)\<close>. Reading
  \<open>triangles.length\<close> throws when the table has no row for the configuration.
\<close>

definition marchCell ::
  "MarchingConstants \<Rightarrow> nat \<Rightarrow> nat \<Rightarrow> nat \<Rightarrow> VoxelGrid \<Rightarrow> VoxelGrid outcome" where
  "marchCell K x y z g =
     (case cubeConfig K g x y z of
        Inl e \<Rightarrow> Throw e g
      | Inr cubeConfigByte \<Rightarrow>
          (case js_index (TRIANGLE_TABLE K) (of_int (sint cubeConfigByte)) of
             None \<Rightarrow> Throw TypeError g
           | Some triangles \<Rightarrow> triangles_loop K x y z triangles 0 g))"

text \<open>
  A counting loop \<open>for (let i = i0; i < bound; i++) body\<close>, with the bound as it is when
  the loop is entered (no body of \<open>marchCubes\<close> changes \<open>size\<close> or \<open>resolution\<close>, see
  \<open>marchCell_appended\<close> below).
\<close>

function for_loop :: "number \<Rightarrow> (nat \<Rightarrow> 's \<Rightarrow> 's outcome) \<Rightarrow> nat \<Rightarrow> 's \<Rightarrow> 's outcome" where
  "for_loop bound body i s =
     (if of_nat i < bound then
        (case body i s of
           Throw e s' \<Rightarrow> Throw e s'
         | Normal s' \<Rightarrow> for_loop bound body (Suc i) s')
      else Normal s)"
  by pat_completeness auto
termination
proof (relation "measure (\<lambda>(bound, body, i, s). nat \<lceil>bound - of_nat i\<rceil>)")
  show "wf (measure (\<lambda>(bound :: number, body :: nat \<Rightarrow> 's \<Rightarrow> 's outcome, i :: nat, s :: 's).
              nat \<lceil>bound - of_nat i\<rceil>))"
    by simp
next
  fix bound :: number and body :: "nat \<Rightarrow> 's \<Rightarrow> 's outcome" and i :: nat and s s' :: 's
  assume lt: "of_nat i < bound"
  have "\<lceil>bound - of_nat (Suc i)\<rceil> = \<lceil>bound - of_nat i\<rceil> - 1"
    by (simp add: algebra_simps ceiling_diff_one [symmetric] del: ceiling_diff_one)
  moreover from lt have "0 < \<lceil>bound - of_nat i\<rceil>"
    by simp
  ultimately show "((bound, body, Suc i, s'), (bound, body, i, s))
      \<in> measure (\<lambda>(bound, body, i, s). nat \<lceil>bound - of_nat i\<rceil>)"
    by simp
qed

declare for_loop.simps [simp del]

text \<open>
  \<open>marchCubes\<close>: the buffer is reset, then the three nested loops run over the cells;
  the bounds are \<open>this.size.x * this.resolution - 1\<close> and so on.
\<close>

definition marchCubes :: "MarchingConstants \<Rightarrow> VoxelGrid \<Rightarrow> VoxelGrid outcome" where
  "marchCubes K g =
     (let g0 = g\<lparr>meshVertexes := []\<rparr> in
      for_loop (vx (sizeV g0) * resolution g0 - 1) (\<lambda>x gx.
        for_loop (vy (sizeV gx) * resolution gx - 1) (\<lambda>y gy.
          for_loop (vz (sizeV gy) * resolution gy - 1) (\<lambda>z gz.
            marchCell K x y z gz) 0 gy) 0 gx) 0 g0)"

section \<open>Rendering\<close>

text \<open>
  \<open>render\<close> works on a three.js scene. The model keeps what the method touches: the
  children of the scene (references to mesh objects), the store of mesh objects, the
  console, and the grid object itself. A mesh object keeps the position buffer it was
  built from (the rounding to 32-bit floats is not modelled) and whether its geometry and
  material have been disposed.
\<close>

record MeshObj =
  positions :: "number list"
  disposed :: bool

record World =
  voxels :: VoxelGrid
  children :: "nat list"
  meshes :: "nat \<Rightarrow> MeshObj option"
  next_ref :: nat
  console :: "error list"

text \<open>
  \<open>removeMeshAndDispose\<close> of \<open>utils.ts\<close>. It is declared \<open>async\<close> and has no
  \<open>await\<close>, so its whole body runs before the call returns: \<open>scene.remove\<close> takes the
  object out of the children, the two \<open>dispose\<close> calls mark it.
\<close>

definition removeMeshAndDispose :: "nat \<Rightarrow> World \<Rightarrow> World" where
  "removeMeshAndDispose m w =
     w\<lparr>children := remove1 m (children w),
       meshes := (meshes w)(m := map_option (\<lambda>ob. ob\<lparr>disposed := True\<rparr>) (meshes w m))\<rparr>"

text \<open>\<open>scene.add\<close>: the object leaves its parent and is pushed to the children.\<close>

definition scene_add :: "nat \<Rightarrow> World \<Rightarrow> World" where
  "scene_add m w = w\<lparr>children := remove1 m (children w) @ [m]\<rparr>"

definition generateMesh :: "World \<Rightarrow> World outcome" where
  "generateMesh w =
     (if length (meshVertexes (voxels w)) mod 3 \<noteq> 0
      then Throw (Thrown ''meshVertexes array length must be a multiple of 3.'') w
      else Normal (w\<lparr>meshes := (meshes w)(next_ref w \<mapsto>
                          \<lparr>positions = concat (map (\<lambda>v. [vx v, vy v, vz v])
                                                   (meshVertexes (voxels w))),
                           disposed = False\<rparr>),
                      next_ref := Suc (next_ref w),
                      voxels := (voxels w)\<lparr>mesh := Some (next_ref w)\<rparr>\<rparr>))"

text \<open>
  The first statement of \<open>render\<close>, then the whole method: \<open>marchCubes\<close> is called
  outside the \<open>try\<close>, so what it throws leaves \<open>render\<close>; what \<open>generateMesh\<close> throws
  is caught and logged.
\<close>

definition render_dispose :: "World \<Rightarrow> World" where
  "render_dispose w =
     (case mesh (voxels w) of None \<Rightarrow> w | Some m \<Rightarrow> removeMeshAndDispose m w)"

definition render :: "MarchingConstants \<Rightarrow> World \<Rightarrow> World outcome" where
  "render K w =
     (let w1 = render_dispose w in
      case marchCubes K (voxels w1) of
        Throw e g \<Rightarrow> Throw e (w1\<lparr>voxels := g\<rparr>)
      | Normal g \<Rightarrow>
          (case generateMesh (w1\<lparr>voxels := g\<rparr>) of
             Throw e w2 \<Rightarrow> Normal (w2\<lparr>console := console w2 @ [e]\<rparr>)
           | Normal w2 \<Rightarrow>
               (case mesh (voxels w2) of
                  None \<Rightarrow> Normal w2
                | Some m \<Rightarrow> Normal (scene_add m w2))))"

section \<open>Tables and fields to run the definitions on\<close>

text \<open>
  An instance of the three tables, to run the definitions on. Corners and edges follow
  the numbering drawn in the comment above \<open>marchCubes\<close>: corner 0 at
  the origin, 1 along x, 2 along y, 4 along z; edge 0 joins corners 0 and 1, edge 3
  corners 0 and 2, edge 8 corners 0 and 4, and so on.
\<close>

definition diagram_corners :: "Vector3 list" where
  "diagram_corners =
     [vec 0 0 0, vec 1 0 0, vec 0 1 0, vec 1 1 0, vec 0 0 1, vec 1 0 1, vec 0 1 1, vec 1 1 1]"

definition diagram_edges :: "Vector3 list list" where
  "diagram_edges =
     [[vec 0 0 0, vec 1 0 0], [vec 1 0 0, vec 1 1 0], [vec 0 1 0, vec 1 1 0],
      [vec 0 0 0, vec 0 1 0], [vec 0 0 1, vec 1 0 1], [vec 1 0 1, vec 1 1 1],
      [vec 0 1 1, vec 1 1 1], [vec 0 0 1, vec 0 1 1], [vec 0 0 0, vec 0 0 1],
      [vec 1 0 0, vec 1 0 1], [vec 1 1 0, vec 1 1 1], [vec 0 1 0, vec 0 1 1]]"

text \<open>
  The triangle table of the instance is not the one of the missing module: it has 256
  rows, of which only the eight configurations with a single corner inside carry a
  triangle, on the three edges that meet in this corner; every other row is the
  terminator alone.
\<close>

definition single_corner_table :: "number list list" where
  "single_corner_table =
     (replicate 256 [- 1])
       [1 := [0, 3, 8, - 1], 2 := [0, 9, 1, - 1], 4 := [3, 2, 11, - 1], 8 := [1, 10, 2, - 1],
        16 := [8, 7, 4, - 1], 32 := [4, 5, 9, - 1], 64 := [7, 11, 6, - 1],
        128 := [5, 6, 10, - 1]]"

definition K0 :: MarchingConstants where
  "K0 = \<lparr>CORNER_ARRAY = diagram_corners, EDGE_ARRAY = diagram_edges,
         TRIANGLE_TABLE = single_corner_table\<rparr>"

text \<open>A dense array of the given extents with the same value in every cell.\<close>

definition uniform_row :: "nat \<Rightarrow> number \<Rightarrow> row" where
  "uniform_row n v =
     \<lparr>len = n, cells = (\<lambda>k. if is_int k \<and> 0 \<le> k \<and> k < of_nat n then Some v else None)\<rparr>"

definition uniform_grid :: "nat \<Rightarrow> nat \<Rightarrow> nat \<Rightarrow> number \<Rightarrow> row list list" where
  "uniform_grid nx ny nz v = replicate nx (replicate ny (uniform_row nz v))"

text \<open>
  The field of 3 by 3 by 3 samples at resolution 1 with the single cell \<open>(1, 1, 1)\<close>
  above the isovalue 0.
\<close>

definition g333 :: VoxelGrid where
  "g333 = \<lparr>resolution = 1, sizeV = vec 3 3 3, isovalue = 0, position = vec 0 0 0,
           grid = (uniform_grid 3 3 3 (- 1))
                    [1 := (replicate 3 (uniform_row 3 (- 1)))
                            [1 := row_set (uniform_row 3 (- 1)) 1 1]],
           meshVertexes = [], mesh = None\<rparr>"

text \<open>
  A scene that holds a previously generated mesh (reference 0) of a grid that was
  constructed with 10 by 6 by 2 units at resolution 1 and whose public field
  \<open>resolution\<close> has then been set to 2 without a call of \<open>initializeGrid\<close>.
\<close>

definition stale_world :: World where
  "stale_world = \<lparr>voxels = (state_of (constructor 1 (vec 10 6 2) 0 (vec 0 0 0)))
                         \<lparr>resolution := 2, mesh := Some 0\<rparr>,
             children = [0],
             meshes = (\<lambda>r. None)(0 \<mapsto> \<lparr>positions = [], disposed = False\<rparr>),
             next_ref = 1, console = []\<rparr>"

section \<open>Notions for stating the properties\<close>

text \<open>Running a body over a list of arguments, stopping at the first throw.\<close>

primrec for_list :: "('a \<Rightarrow> 's \<Rightarrow> 's outcome) \<Rightarrow> 'a list \<Rightarrow> 's \<Rightarrow> 's outcome" where
  "for_list body [] s = Normal s"
| "for_list body (a # as) s =
     (case body a s of Throw e s' \<Rightarrow> Throw e s' | Normal s' \<Rightarrow> for_list body as s')"

text \<open>
  \<open>appended g g'\<close>: the state \<open>g'\<close> is \<open>g\<close> with whole triangles pushed to the vertex
  buffer and nothing else changed.
\<close>

definition appended :: "VoxelGrid \<Rightarrow> VoxelGrid \<Rightarrow> bool" where
  "appended g g' \<longleftrightarrow> (\<exists>vs. g' = g\<lparr>meshVertexes := meshVertexes g @ vs\<rparr> \<and> 3 dvd length vs)"

text \<open>The cells in the order of the three nested loops of \<open>marchCubes\<close>.\<close>

definition scan_cells :: "VoxelGrid \<Rightarrow> (nat \<times> nat \<times> nat) list" where
  "scan_cells g =
     concat (map (\<lambda>x. map (Pair x)
       (concat (map (\<lambda>y. map (Pair y) [0 ..< nat \<lceil>vz (sizeV g) * resolution g - 1\<rceil>])
          [0 ..< nat \<lceil>vy (sizeV g) * resolution g - 1\<rceil>])))
       [0 ..< nat \<lceil>vx (sizeV g) * resolution g - 1\<rceil>])"

text \<open>
  The value stored under the keys \<open>a\<close>, \<open>b\<close>, \<open>c\<close> (\<open>None\<close> where a row or the cell is
  missing), and the scalar value at a corner of the cell \<open>(x, y, z)\<close>.
\<close>

definition grid_value :: "VoxelGrid \<Rightarrow> number \<Rightarrow> number \<Rightarrow> number \<Rightarrow> number option" where
  "grid_value g a b c =
     (case js_index (grid g) a of
        None \<Rightarrow> None
      | Some plane \<Rightarrow> (case js_index plane b of None \<Rightarrow> None | Some r \<Rightarrow> cells r c))"

definition corner_value :: "VoxelGrid \<Rightarrow> nat \<Rightarrow> nat \<Rightarrow> nat \<Rightarrow> Vector3 \<Rightarrow> number option" where
  "corner_value g x y z corner =
     grid_value g (of_nat x + vx corner) (of_nat y + vy corner) (of_nat z + vz corner)"

text \<open>
  The keys \<open>a\<close>, \<open>b\<close>, \<open>c\<close> are indices within the extents of the arrays they are
  applied to: each is an integer from 0 up to the length of its array.
\<close>

definition in_extent :: "VoxelGrid \<Rightarrow> number \<Rightarrow> number \<Rightarrow> number \<Rightarrow> bool" where
  "in_extent g a b c =
     (case js_index (grid g) a of
        None \<Rightarrow> False
      | Some plane \<Rightarrow>
          (case js_index plane b of
             None \<Rightarrow> False
           | Some r \<Rightarrow> is_int c \<and> 0 \<le> c \<and> c < of_nat (len r)))"

text \<open>
  The shape invariant of a field: along each axis the extent of the array is
  \<open>size * resolution\<close>, a non-negative integer.
\<close>

definition shape_ok :: "VoxelGrid \<Rightarrow> bool" where
  "shape_ok g \<longleftrightarrow>
     of_nat (length (grid g)) = vx (sizeV g) * resolution g \<and>
     (\<forall>plane \<in> set (grid g).
        of_nat (length plane) = vy (sizeV g) * resolution g \<and>
        (\<forall>r \<in> set plane. of_nat (len r) = vz (sizeV g) * resolution g))"

text \<open>
  What the properties need of the three tables: corner offsets of 0 or 1 along each axis,
  eight of them, a row of the triangle table for each of the 256 configurations, and in
  every row whole triples of indices of edges with two end points, up to the terminator
  or the end of the row.
\<close>

definition unit_corners :: "MarchingConstants \<Rightarrow> bool" where
  "unit_corners K \<longleftrightarrow>
     (\<forall>c \<in> set (CORNER_ARRAY K). vx c \<in> {0, 1} \<and> vy c \<in> {0, 1} \<and> vz c \<in> {0, 1})"

definition has_edge :: "MarchingConstants \<Rightarrow> number \<Rightarrow> bool" where
  "has_edge K k = (case js_index (EDGE_ARRAY K) k of None \<Rightarrow> False | Some e \<Rightarrow> 2 \<le> length e)"

fun wf_row :: "MarchingConstants \<Rightarrow> number list \<Rightarrow> bool" where
  "wf_row K [] = True"
| "wf_row K (a # rest) =
     (a = - 1 \<or>
      (case rest of
         b # c # rest' \<Rightarrow> has_edge K a \<and> has_edge K b \<and> has_edge K c \<and> wf_row K rest'
       | _ \<Rightarrow> False))"

definition wf_constants :: "MarchingConstants \<Rightarrow> bool" where
  "wf_constants K \<longleftrightarrow>
     unit_corners K \<and> length (CORNER_ARRAY K) = 8 \<and> length (TRIANGLE_TABLE K) = 256 \<and>
     (\<forall>triangles \<in> set (TRIANGLE_TABLE K). wf_row K triangles)"

text \<open>
  The edge indices a row of the triangle table refers to: its triples up to the
  terminator. The point the specification gives for an edge of the cell \<open>(x, y, z)\<close>: the
  midpoint of the two end points, divided by the resolution, plus the base of the cell
  divided by the resolution.
\<close>

fun edge_triples :: "number list \<Rightarrow> number list" where
  "edge_triples (a # b # c # rest) = (if a = - 1 then [] else a # b # c # edge_triples rest)"
| "edge_triples rest = []"

definition midpoint_vertex :: "number \<Rightarrow> nat \<Rightarrow> nat \<Rightarrow> nat \<Rightarrow> Vector3 \<Rightarrow> Vector3 \<Rightarrow> Vector3" where
  "midpoint_vertex res x y z p0 p1 =
     vec (((vx p0 + vx p1) / 2) / res + of_nat x / res)
         (((vy p0 + vy p1) / 2) / res + of_nat y / res)
         (((vz p0 + vz p1) / 2) / res + of_nat z / res)"

definition spec_vertex ::
  "MarchingConstants \<Rightarrow> number \<Rightarrow> nat \<Rightarrow> nat \<Rightarrow> nat \<Rightarrow> number \<Rightarrow> Vector3 option" where
  "spec_vertex K res x y z edgeIndex =
     (case js_index (EDGE_ARRAY K) edgeIndex of
        None \<Rightarrow> None
      | Some edge \<Rightarrow>
          (case edge of
             p0 # p1 # ps \<Rightarrow> Some (midpoint_vertex res x y z p0 p1)
           | _ \<Rightarrow> None))"

text \<open>
  The keys of the eight seeding statements of \<open>initializeGrid\<close>, in their order, and
  the condition under which the reads \<open>this.grid[a][b]\<close> of such a statement find a row.
\<close>

definition seed_keys :: "VoxelGrid \<Rightarrow> (number \<times> number \<times> number) list" where
  "seed_keys g =
     (let cx = (vx (sizeV g) / 2) * resolution g;
          cy = (vy (sizeV g) / 2) * resolution g;
          cz = (vz (sizeV g) / 2) * resolution g
      in [(cx, cy, cz), (cx + 1, cy, cz), (cx + 2, cy, cz), (cx + 2, cy - 1, cz),
          (cx + 2, cy - 2, cz), (cx + 2, cy - 3, cz), (cx + 3, cy, cz), (cx + 4, cy, cz)])"

definition xy_defined :: "row list list \<Rightarrow> number \<Rightarrow> number \<Rightarrow> bool" where
  "xy_defined a x y =
     (case js_index a x of None \<Rightarrow> False | Some plane \<Rightarrow> js_index plane y \<noteq> None)"

section \<open>Loops\<close>

lemma for_loop_inv:
  assumes step: "\<And>i s. of_nat i < bound \<Longrightarrow> I s \<Longrightarrow> I (state_of (body i s))"
    and init: "I s"
  shows "I (state_of (for_loop bound body i s))"
  using assms
proof (induction bound body i s rule: for_loop.induct)
  case (1 bound body i s)
  show ?case
  proof (cases "of_nat i < bound")
    case False
    then show ?thesis using "1.prems"(2) by (simp add: for_loop.simps [of bound body i s])
  next
    case True
    note lt = this
    have Ib: "I (state_of (body i s))"
      using "1.prems"(1) [OF lt "1.prems"(2)] .
    show ?thesis
    proof (cases "body i s")
      case (Throw e s')
      with lt Ib show ?thesis
        by (simp add: for_loop.simps [of bound body i s])
    next
      case (Normal s')
      with Ib have "I s'" by simp
      from "1.IH" [OF lt Normal "1.prems"(1) this] lt Normal show ?thesis
        by (simp add: for_loop.simps [of bound body i s])
    qed
  qed
qed

lemma for_loop_list: "for_loop bound body i s = for_list body [i ..< nat \<lceil>bound\<rceil>] s"
proof (induction bound body i s rule: for_loop.induct)
  case (1 bound body i s)
  show ?case
  proof (cases "of_nat i < bound")
    case False
    then have "nat \<lceil>bound\<rceil> \<le> i"
      by (metis ceiling_le_iff nat_le_iff not_less of_int_of_nat_eq)
    with False show ?thesis by (simp add: for_loop.simps [of bound body i s])
  next
    case True
    then have "i < nat \<lceil>bound\<rceil>"
      by (metis less_ceiling_iff of_int_of_nat_eq zless_nat_eq_int_zless)
    then have upt: "[i ..< nat \<lceil>bound\<rceil>] = i # [Suc i ..< nat \<lceil>bound\<rceil>]"
      by (simp add: upt_conv_Cons)
    show ?thesis
    proof (cases "body i s")
      case (Throw e s')
      with True upt show ?thesis by (simp add: for_loop.simps [of bound body i s])
    next
      case (Normal s')
      with True upt "1.IH" [OF True Normal] show ?thesis
        by (simp add: for_loop.simps [of bound body i s])
    qed
  qed
qed

lemma for_list_inv:
  assumes step: "\<And>a s. a \<in> set as \<Longrightarrow> I s \<Longrightarrow> I (state_of (body a s))"
    and init: "I s"
  shows "I (state_of (for_list body as s))"
  using assms
proof (induction as arbitrary: s)
  case Nil
  then show ?case by simp
next
  case (Cons a as)
  have Ia: "I (state_of (body a s))" using Cons.prems by simp
  show ?case
  proof (cases "body a s")
    case (Throw e s')
    with Ia show ?thesis by simp
  next
    case (Normal s')
    with Ia have "I s'" by simp
    then have "I (state_of (for_list body as s'))"
      using Cons.IH Cons.prems(1) by simp
    with Normal show ?thesis by simp
  qed
qed

lemma for_list_cong_inv:
  assumes eq: "\<And>a s. a \<in> set as \<Longrightarrow> I s \<Longrightarrow> body a s = body' a s"
    and step: "\<And>a s. a \<in> set as \<Longrightarrow> I s \<Longrightarrow> I (state_of (body a s))"
    and init: "I s"
  shows "for_list body as s = for_list body' as s"
  using assms
proof (induction as arbitrary: s)
  case Nil
  then show ?case by simp
next
  case (Cons a as)
  have e: "body a s = body' a s" using Cons.prems by simp
  have Ia: "I (state_of (body a s))" using Cons.prems by simp
  show ?case
  proof (cases "body a s")
    case (Throw e' s')
    moreover from Throw e have "body' a s = Throw e' s'" by simp
    ultimately show ?thesis by simp
  next
    case (Normal s')
    with Ia have "I s'" by simp
    then have "for_list body as s' = for_list body' as s'"
      using Cons.IH Cons.prems by simp
    moreover from Normal e have "body' a s = Normal s'" by simp
    ultimately show ?thesis using Normal by simp
  qed
qed

lemma for_list_append:
  "for_list body (as @ bs) s = and_then (for_list body as s) (for_list body bs)"
  by (induction as arbitrary: s) (auto split: outcome.splits)

lemma for_list_nested:
  "for_list (\<lambda>a. for_list (body a) bs) as s
     = for_list (\<lambda>(a, b). body a b) (concat (map (\<lambda>a. map (Pair a) bs) as)) s"
proof (induction as arbitrary: s)
  case Nil
  then show ?case by simp
next
  case (Cons a as)
  have inner: "for_list (\<lambda>(a, b). body a b) (map (Pair a) bs) t = for_list (body a) bs t" for t
    by (induction bs arbitrary: t) (auto split: outcome.splits)
  show ?case
    by (cases "for_list (body a) bs s") (simp_all add: for_list_append inner Cons.IH)
qed


lemma for_list_nested3:
  "for_list (\<lambda>a. for_list (\<lambda>b. for_list (body a b) cs) bs) as s
     = for_list (\<lambda>(a, b, c). body a b c)
         (concat (map (\<lambda>a. map (Pair a) (concat (map (\<lambda>b. map (Pair b) cs) bs))) as)) s"
proof -
  have "(\<lambda>a. for_list (\<lambda>b. for_list (body a b) cs) bs)
      = (\<lambda>a. for_list (\<lambda>(b, c). body a b c) (concat (map (\<lambda>b. map (Pair b) cs) bs)))"
    by (rule ext, rule ext) (rule for_list_nested)
  then show ?thesis
    using for_list_nested [of "\<lambda>a (b, c). body a b c"
        "concat (map (\<lambda>b. map (Pair b) cs) bs)" as s]
    by simp
qed

lemma appended_refl: "appended g g"
  unfolding appended_def by (rule exI [of _ "[]"]) simp

lemma appended_trans: "appended g g' \<Longrightarrow> appended g' g'' \<Longrightarrow> appended g g''"
  by (auto simp: appended_def)

lemma appended_fields:
  "appended g g' \<Longrightarrow> sizeV g' = sizeV g \<and> resolution g' = resolution g \<and> grid g' = grid g
      \<and> isovalue g' = isovalue g \<and> position g' = position g \<and> mesh g' = mesh g"
  by (auto simp: appended_def)

lemma triangles_loop_appended:
  "appended g (state_of (triangles_loop K x y z triangles i g))"
proof (induction K x y z triangles i g rule: triangles_loop.induct)
  case (1 K x y z triangles i g)
  show ?case
  proof (cases "i < length triangles \<and> triangles ! i \<noteq> - 1")
    case False
    then show ?thesis
      by (auto simp: triangles_loop.simps [of K x y z triangles i g] appended_refl)
  next
    case True
    show ?thesis
    proof (cases "getEdgeMidpoint (edge_at K triangles i) (resolution g)")
      case (Inl e)
      with True show ?thesis
        by (simp add: triangles_loop.simps [of K x y z triangles i g] appended_refl)
    next
      case v1: (Inr vertex1)
      show ?thesis
      proof (cases "getEdgeMidpoint (edge_at K triangles (i + 1)) (resolution g)")
        case (Inl e)
        with True v1 show ?thesis
          by (simp add: triangles_loop.simps [of K x y z triangles i g] appended_refl)
      next
        case v2: (Inr vertex2)
        show ?thesis
        proof (cases "getEdgeMidpoint (edge_at K triangles (i + 2)) (resolution g)")
          case (Inl e)
          with True v1 v2 show ?thesis
            by (simp add: triangles_loop.simps [of K x y z triangles i g] appended_refl)
        next
          case v3: (Inr vertex3)
          let ?g' = "g\<lparr>meshVertexes := meshVertexes g @
                    [add (vec (of_nat x / resolution g) (of_nat y / resolution g)
                            (of_nat z / resolution g)) vertex1,
                     add (vec (of_nat x / resolution g) (of_nat y / resolution g)
                            (of_nat z / resolution g)) vertex2,
                     add (vec (of_nat x / resolution g) (of_nat y / resolution g)
                            (of_nat z / resolution g)) vertex3]\<rparr>"
          have step: "appended g ?g'"
            unfolding appended_def
            by (rule exI [of _ "[add (vec (of_nat x / resolution g) (of_nat y / resolution g)
                            (of_nat z / resolution g)) vertex1,
                     add (vec (of_nat x / resolution g) (of_nat y / resolution g)
                            (of_nat z / resolution g)) vertex2,
                     add (vec (of_nat x / resolution g) (of_nat y / resolution g)
                            (of_nat z / resolution g)) vertex3]"])
               (simp add: numeral_3_eq_3)
          have "appended ?g' (state_of (triangles_loop K x y z triangles (i + 3) ?g'))"
            using "1.IH" True v1 v2 v3 by simp
          with step have "appended g (state_of (triangles_loop K x y z triangles (i + 3) ?g'))"
            by (rule appended_trans)
          with True v1 v2 v3 show ?thesis
            by (simp add: triangles_loop.simps [of K x y z triangles i g])
        qed
      qed
    qed
  qed
qed

lemma marchCell_appended: "appended g (state_of (marchCell K x y z g))"
  by (simp add: marchCell_def appended_refl triangles_loop_appended
      split: sum.splits option.splits)

lemma for_list_appended:
  assumes "\<And>a s. appended s (state_of (body a s))"
  shows "appended g (state_of (for_list body as g))"
proof (rule for_list_inv [where I = "appended g"])
  show "appended g g" by (rule appended_refl)
next
  fix a s assume "appended g s"
  then show "appended g (state_of (body a s))"
    using assms by (rule appended_trans)
qed

lemma marchCubes_scan:
  "marchCubes K g
     = for_list (\<lambda>(x, y, z). marchCell K x y z) (scan_cells g) (g\<lparr>meshVertexes := []\<rparr>)"
proof -
  let ?g0 = "g\<lparr>meshVertexes := []\<rparr>"
  let ?nx = "nat \<lceil>vx (sizeV g) * resolution g - 1\<rceil>"
  let ?ny = "nat \<lceil>vy (sizeV g) * resolution g - 1\<rceil>"
  let ?nz = "nat \<lceil>vz (sizeV g) * resolution g - 1\<rceil>"
  let ?I = "appended ?g0"
  let ?bz = "\<lambda>y gy. for_list (\<lambda>z. marchCell K x y z) [0 ..< nat \<lceil>vz (sizeV gy) * resolution gy - 1\<rceil>] gy"
  have inner: "for_list (\<lambda>z. marchCell K x y z) [0 ..< nat \<lceil>vz (sizeV s) * resolution s - 1\<rceil>] s
      = for_list (\<lambda>z. marchCell K x y z) [0 ..< ?nz] s" if "?I s" for x y s
    using appended_fields [OF that] by simp
  have inner_app: "appended s (state_of (for_list (\<lambda>z. marchCell K x y z) zs s))" for x y zs s
    by (rule for_list_appended) (rule marchCell_appended)
  have mid: "for_list (\<lambda>y gy. for_list (\<lambda>z. marchCell K x y z)
                 [0 ..< nat \<lceil>vz (sizeV gy) * resolution gy - 1\<rceil>] gy)
               [0 ..< nat \<lceil>vy (sizeV s) * resolution s - 1\<rceil>] s
      = for_list (\<lambda>y. for_list (\<lambda>z. marchCell K x y z) [0 ..< ?nz]) [0 ..< ?ny] s"
    if "?I s" for x s
  proof -
    have "for_list (\<lambda>y gy. for_list (\<lambda>z. marchCell K x y z)
                 [0 ..< nat \<lceil>vz (sizeV gy) * resolution gy - 1\<rceil>] gy) [0 ..< ?ny] s
      = for_list (\<lambda>y. for_list (\<lambda>z. marchCell K x y z) [0 ..< ?nz]) [0 ..< ?ny] s"
    proof (rule for_list_cong_inv [where I = ?I])
      show "?I s" by (rule that)
    next
      fix a s' assume "?I s'"
      then show "for_list (\<lambda>z. marchCell K x a z)
                 [0 ..< nat \<lceil>vz (sizeV s') * resolution s' - 1\<rceil>] s'
           = for_list (\<lambda>z. marchCell K x a z) [0 ..< ?nz] s'"
        by (rule inner)
    next
      fix a s' assume "?I s'"
      then show "?I (state_of (for_list (\<lambda>z. marchCell K x a z)
                 [0 ..< nat \<lceil>vz (sizeV s') * resolution s' - 1\<rceil>] s'))"
        using inner_app by (rule appended_trans)
    qed
    then show ?thesis using appended_fields [OF that] by simp
  qed
  have mid_app: "appended s (state_of (for_list (\<lambda>y. for_list (\<lambda>z. marchCell K x y z) zs) ys s))"
    for x ys zs s
    by (rule for_list_appended) (rule inner_app)
  have outer: "for_list (\<lambda>x gx. for_list (\<lambda>y gy. for_list (\<lambda>z. marchCell K x y z)
                 [0 ..< nat \<lceil>vz (sizeV gy) * resolution gy - 1\<rceil>] gy)
               [0 ..< nat \<lceil>vy (sizeV gx) * resolution gx - 1\<rceil>] gx) [0 ..< ?nx] ?g0
      = for_list (\<lambda>x. for_list (\<lambda>y. for_list (\<lambda>z. marchCell K x y z) [0 ..< ?nz]) [0 ..< ?ny])
          [0 ..< ?nx] ?g0"
  proof (rule for_list_cong_inv [where I = ?I])
    show "?I ?g0" by (rule appended_refl)
  next
    fix a s' assume "?I s'"
    then show "for_list (\<lambda>y gy. for_list (\<lambda>z. marchCell K a y z)
                 [0 ..< nat \<lceil>vz (sizeV gy) * resolution gy - 1\<rceil>] gy)
               [0 ..< nat \<lceil>vy (sizeV s') * resolution s' - 1\<rceil>] s'
         = for_list (\<lambda>y. for_list (\<lambda>z. marchCell K a y z) [0 ..< ?nz]) [0 ..< ?ny] s'"
      by (rule mid)
  next
    fix a s' assume I: "?I s'"
    show "?I (state_of (for_list (\<lambda>y gy. for_list (\<lambda>z. marchCell K a y z)
                 [0 ..< nat \<lceil>vz (sizeV gy) * resolution gy - 1\<rceil>] gy)
               [0 ..< nat \<lceil>vy (sizeV s') * resolution s' - 1\<rceil>] s'))"
      unfolding mid [OF I] by (rule appended_trans [OF I mid_app])
  qed
  have "marchCubes K g = for_list (\<lambda>x. for_list (\<lambda>y. for_list (\<lambda>z. marchCell K x y z) [0 ..< ?nz]) [0 ..< ?ny])
          [0 ..< ?nx] ?g0"
    unfolding marchCubes_def Let_def for_loop_list using outer by simp
  also have "\<dots> = for_list (\<lambda>(x, y, z). marchCell K x y z) (scan_cells g) ?g0"
    unfolding scan_cells_def by (rule for_list_nested3)
  finally show ?thesis .
qed


section \<open>Reading arrays\<close>

lemma is_int_of_nat [simp]: "is_int (of_nat n)"
  by (simp add: is_int_def)

lemma js_index_of_nat: "js_index xs (of_nat n) = (if n < length xs then Some (xs ! n) else None)"
  by (simp add: js_index_def)

lemma js_index_SomeD:
  "js_index xs k = Some v \<Longrightarrow> is_int k \<and> 0 \<le> k \<and> k < of_nat (length xs) \<and> v = xs ! nat \<lfloor>k\<rfloor> \<and> v \<in> set xs"
proof -
  assume a: "js_index xs k = Some v"
  then have k: "is_int k" "0 \<le> k" "k < of_nat (length xs)" and v: "v = xs ! nat \<lfloor>k\<rfloor>"
    by (auto simp: js_index_def split: if_splits)
  from k(1) have "of_int \<lfloor>k\<rfloor> = k" by (simp add: is_int_def)
  with k(2,3) have "nat \<lfloor>k\<rfloor> < length xs"
    by (metis floor_less_iff nat_less_iff of_int_of_nat_eq zero_le_floor)
  with k v show ?thesis by simp
qed

lemma js_index_0: "js_index xs 0 = (if xs = [] then None else Some (xs ! 0))"
  using js_index_of_nat [of xs 0] by simp

lemma js_index_1: "js_index xs 1 = (if 1 < length xs then Some (xs ! 1) else None)"
  using js_index_of_nat [of xs 1] by simp

lemma js_index_of_int:
  "js_index xs (of_int n) = (if 0 \<le> n \<and> n < int (length xs) then Some (xs ! nat n) else None)"
proof -
  have "(of_int n :: rat) < of_nat (length xs) \<longleftrightarrow> n < int (length xs)"
    by (metis of_int_less_iff of_int_of_nat_eq)
  then show ?thesis by (simp add: js_index_def is_int_def)
qed

section \<open>What \<open>marchCubes\<close> changes\<close>

lemma marchCubes_appended: "appended (g\<lparr>meshVertexes := []\<rparr>) (state_of (marchCubes K g))"
  unfolding marchCubes_scan
  by (rule for_list_appended) (simp add: marchCell_appended split: prod.splits)

lemma marchCubes_reset: "marchCubes K (g\<lparr>meshVertexes := vs\<rparr>) = marchCubes K g"
  by (simp add: marchCubes_def)

text \<open>
  Claim C9. Extraction never writes to the scalar field: whether \<open>marchCubes\<close> completes
  or throws, the grid it leaves is the grid it found, cell for cell, and the state differs
  from the one before the call in the vertex buffer only. The buffer is replaced
  wholesale: the call is the run of the cell bodies, over the cells of the scan in their
  order, that starts from the state with the empty buffer, so what the buffer held before
  the call is gone; each cell body only appends to the buffer it finds; and the call has
  the outcome it has on the state whose buffer is already empty.
\<close>

theorem marchCubes_leaves_field:
  "grid (state_of (marchCubes K g)) = grid g
     \<and> (\<exists>vs. state_of (marchCubes K g) = g\<lparr>meshVertexes := vs\<rparr>)
     \<and> marchCubes K g
         = for_list (\<lambda>(x, y, z). marchCell K x y z) (scan_cells g) (g\<lparr>meshVertexes := []\<rparr>)
     \<and> (\<forall>x y z s. \<exists>vs. state_of (marchCell K x y z s)
                            = s\<lparr>meshVertexes := meshVertexes s @ vs\<rparr>)
     \<and> marchCubes K g = marchCubes K (g\<lparr>meshVertexes := []\<rparr>)"
proof -
  from marchCubes_appended [of g K] obtain vs
    where "state_of (marchCubes K g) = g\<lparr>meshVertexes := vs\<rparr>"
    by (auto simp: appended_def)
  then have "grid (state_of (marchCubes K g)) = grid g
     \<and> (\<exists>vs. state_of (marchCubes K g) = g\<lparr>meshVertexes := vs\<rparr>)"
    by auto
  moreover have "\<exists>vs. state_of (marchCell K x y z s) = s\<lparr>meshVertexes := meshVertexes s @ vs\<rparr>"
    for x y z s
    using marchCell_appended [of s K x y z] by (auto simp: appended_def)
  moreover have "marchCubes K g = marchCubes K (g\<lparr>meshVertexes := []\<rparr>)"
    by (simp add: marchCubes_reset)
  ultimately show ?thesis using marchCubes_scan [of K g] by blast
qed

text \<open>
  On the field \<open>g333\<close> with one vertex left in the buffer from before, the call leaves
  the 24 vertices of the eight cells around the sample \<open>(1, 1, 1)\<close>, the first of them
  the first vertex of the cell \<open>(0, 0, 0)\<close>: the old vertex is gone.
\<close>

lemma marchCubes_replaces_buffer:
  "length (meshVertexes (state_of (marchCubes K0 (g333\<lparr>meshVertexes := [vec 9 9 9]\<rparr>)))) = 24
   \<and> hd (meshVertexes (state_of (marchCubes K0 (g333\<lparr>meshVertexes := [vec 9 9 9]\<rparr>))))
       = vec 1 (1 / 2) 1"
  by code_simp

text \<open>
  Claim C7. Running the extraction a second time, on the state the first run left, has
  the same outcome as the first run: the same vertices in the same order (or the same
  throw). The buffer accumulated before a call has no influence on the outcome.
\<close>

theorem marchCubes_repeatable:
  "marchCubes K (state_of (marchCubes K g)) = marchCubes K g
     \<and> marchCubes K (g\<lparr>meshVertexes := old\<rparr>) = marchCubes K g"
proof -
  from marchCubes_appended [of g K] obtain vs
    where "state_of (marchCubes K g) = g\<lparr>meshVertexes := vs\<rparr>"
    by (auto simp: appended_def)
  then show ?thesis by (simp add: marchCubes_reset)
qed

lemma marchCubes_triples: "3 dvd length (meshVertexes (state_of (marchCubes K g)))"
  using marchCubes_appended [of g K] by (auto simp: appended_def)

section \<open>Sampling the corners of a cell\<close>

lemma bit_or_shift_one:
  "bit (w OR push_bit (i mod 32) 1 :: 32 word) k \<longleftrightarrow> bit w k \<or> k = i mod 32"
  by (auto simp: bit_or_iff bit_exp_iff possible_bit_word)

lemma above_corner_value:
  "is_above g (of_nat x + vx c) (of_nat y + vy c) (of_nat z + vz c) = Inr b
     \<Longrightarrow> b \<longleftrightarrow> (\<exists>v. corner_value g x y z c = Some v \<and> isovalue g < v)"
  by (auto simp: is_above_def corner_value_def grid_value_def split: option.splits)

lemma corners_loop_bits:
  "corners_loop g x y z i cs w0 = Inr w \<Longrightarrow> i + length cs \<le> 32 \<Longrightarrow>
   bit w k \<longleftrightarrow> bit w0 k \<or>
     (i \<le> k \<and> k < i + length cs \<and> (\<exists>v. corner_value g x y z (cs ! (k - i)) = Some v \<and> isovalue g < v))"
proof (induction cs arbitrary: i w0)
  case Nil
  then show ?case by auto
next
  case (Cons c cs)
  from Cons.prems(1) obtain b where
    ab: "is_above g (of_nat x + vx c) (of_nat y + vy c) (of_nat z + vz c) = Inr b"
    and rest: "corners_loop g x y z (Suc i) cs (if b then w0 OR push_bit (i mod 32) 1 else w0) = Inr w"
    by (auto split: sum.splits)
  have b: "b \<longleftrightarrow> (\<exists>v. corner_value g x y z c = Some v \<and> isovalue g < v)"
    using ab by (rule above_corner_value)
  from Cons.prems(2) have i32: "i < 32" "Suc i + length cs \<le> 32" by simp_all
  have IH: "bit w k \<longleftrightarrow> bit (if b then w0 OR push_bit (i mod 32) 1 else w0) k \<or>
     (Suc i \<le> k \<and> k < Suc i + length cs \<and>
      (\<exists>v. corner_value g x y z (cs ! (k - Suc i)) = Some v \<and> isovalue g < v))"
    using Cons.IH [OF rest i32(2)] .
  show ?case
  proof (cases "k = i")
    case True
    with IH b i32 bit_or_shift_one [of w0 i k] show ?thesis by auto
  next
    case False
    then have "(i \<le> k \<and> k < i + length (c # cs)) = (Suc i \<le> k \<and> k < Suc i + length cs)"
      by auto
    moreover have "Suc i \<le> k \<Longrightarrow> (c # cs) ! (k - i) = cs ! (k - Suc i)"
      by (simp add: Suc_diff_le)
    ultimately show ?thesis using IH False i32 bit_or_shift_one [of w0 i k] by auto
  qed
qed

text \<open>
  Claim C5. When the sampling of a cell completes, bit \<open>i\<close> of the configuration code
  is set if and only if \<open>i\<close> numbers a corner of the table and the scalar value at this
  corner, read at the cell's position plus the corner's offset, is strictly greater than
  the isovalue. A corner value equal to the isovalue, or a missing one, leaves the bit 0.
  (The corner table has at most 32 entries, the width of the code; the specification
  gives it 8.)
\<close>

theorem cubeConfig_bits:
  assumes "cubeConfig K g x y z = Inr cubeConfigByte" and "length (CORNER_ARRAY K) \<le> 32"
  shows "bit cubeConfigByte i \<longleftrightarrow>
           i < length (CORNER_ARRAY K) \<and>
           (\<exists>v. corner_value g x y z (CORNER_ARRAY K ! i) = Some v \<and> isovalue g < v)"
  using corners_loop_bits [OF assms(1) [unfolded cubeConfig_def], of i] assms(2) by simp

theorem cubeConfig_bits_witness:
  "cubeConfig K0 g333 0 0 0 = Inr 128 \<and> length (CORNER_ARRAY K0) \<le> 32
     \<and> (\<forall>i. bit (128 :: 32 word) i \<longleftrightarrow>
           i < length (CORNER_ARRAY K0) \<and>
           (\<exists>v. corner_value g333 0 0 0 (CORNER_ARRAY K0 ! i) = Some v \<and> isovalue g333 < v))"
proof -
  have c: "cubeConfig K0 g333 0 0 0 = Inr 128" by code_simp
  have l: "length (CORNER_ARRAY K0) \<le> 32" by code_simp
  from cubeConfig_bits [OF c l] c l show ?thesis by blast
qed

lemma less_nat_ceiling:
  assumes "x < nat \<lceil>b :: rat\<rceil>"
  shows "of_nat x < b"
proof -
  from assms have "int x < \<lceil>b\<rceil>" by (simp add: zless_nat_eq_int_zless)
  then have "of_int (int x) < b" by (simp only: less_ceiling_iff)
  then show ?thesis by simp
qed

lemma scan_cells_bounds:
  assumes "(x, y, z) \<in> set (scan_cells g)"
  shows "of_nat x < vx (sizeV g) * resolution g - 1
       \<and> of_nat y < vy (sizeV g) * resolution g - 1
       \<and> of_nat z < vz (sizeV g) * resolution g - 1"
  using assms by (auto simp: scan_cells_def simp del: ceiling_diff_one dest!: less_nat_ceiling)

text \<open>
  The scan has no cell when the resolution is 0, so that no vertex is computed by a
  division by zero.
\<close>

lemma scan_cells_resolution:
  assumes "(x, y, z) \<in> set (scan_cells g)"
  shows "resolution g \<noteq> 0"
proof
  assume "resolution g = 0"
  with scan_cells_bounds [OF assms] have "(of_nat x :: rat) < - 1" by simp
  moreover have "(0 :: rat) \<le> of_nat x" by simp
  ultimately show False by linarith
qed

lemma unit_key:
  assumes "v \<in> {0, 1 :: rat}" and "of_nat n < p - 1"
  obtains m where "of_nat n + v = of_nat m" and "(of_nat m :: rat) < p"
proof (cases "v = 0")
  case True
  with assms(2) that [of n] show ?thesis by simp
next
  case False
  with assms(1) have "v = 1" by simp
  with assms(2) that [of "Suc n"] show ?thesis by simp
qed

lemma corner_in_extent:
  assumes shape: "shape_ok g"
    and x: "of_nat x < vx (sizeV g) * resolution g - 1"
    and y: "of_nat y < vy (sizeV g) * resolution g - 1"
    and z: "of_nat z < vz (sizeV g) * resolution g - 1"
    and c: "vx c \<in> {0, 1}" "vy c \<in> {0, 1}" "vz c \<in> {0, 1}"
  shows "in_extent g (of_nat x + vx c) (of_nat y + vy c) (of_nat z + vz c)
       \<and> (\<exists>b. is_above g (of_nat x + vx c) (of_nat y + vy c) (of_nat z + vz c) = Inr b)"
proof -
  from c(1) x obtain i where i: "of_nat x + vx c = of_nat i"
    and "(of_nat i :: rat) < vx (sizeV g) * resolution g"
    by (rule unit_key)
  with shape have il: "i < length (grid g)" by (simp add: shape_ok_def)
  let ?plane = "grid g ! i"
  from il have plane: "?plane \<in> set (grid g)" by simp
  from c(2) y obtain j where j: "of_nat y + vy c = of_nat j"
    and "(of_nat j :: rat) < vy (sizeV g) * resolution g"
    by (rule unit_key)
  moreover from shape plane have "of_nat (length ?plane) = vy (sizeV g) * resolution g"
    by (simp add: shape_ok_def)
  ultimately have jl: "j < length ?plane" by simp
  let ?r = "?plane ! j"
  from jl have r: "?r \<in> set ?plane" by simp
  from c(3) z obtain k where k: "of_nat z + vz c = of_nat k"
    and "(of_nat k :: rat) < vz (sizeV g) * resolution g"
    by (rule unit_key)
  moreover from shape plane r have "of_nat (len ?r) = vz (sizeV g) * resolution g"
    by (simp add: shape_ok_def)
  ultimately have kl: "k < len ?r" by simp
  with il jl show ?thesis
    by (simp add: in_extent_def is_above_def i j k js_index_of_nat)
qed

lemma corners_loop_total:
  "\<forall>c \<in> set cs. \<exists>b. is_above g (of_nat x + vx c) (of_nat y + vy c) (of_nat z + vz c) = Inr b
     \<Longrightarrow> \<exists>w. corners_loop g x y z i cs w0 = Inr w"
  by (induction cs arbitrary: i w0) auto

lemma shape_ok_g333: "shape_ok g333"
  by code_simp

lemma unit_corners_K0: "unit_corners K0"
  by code_simp

text \<open>
  Claim C3. For a field that satisfies the shape invariant, and corner offsets of 0 or 1,
  the scan of \<open>marchCubes\<close> runs the cell body on the cells of \<open>scan_cells\<close> in this
  order and on nothing else; each of these cells has \<open>0 \<le> x < extentX - 1\<close> and the same
  for \<open>y\<close> and \<open>z\<close>; and every key under which a corner of such a cell is read is an
  index within the extent of the array it is applied to, on all three axes, so that the
  sampling of the cell completes without a throw.
\<close>

theorem scan_within_extents:
  assumes "shape_ok g" and "unit_corners K"
  shows "marchCubes K g
           = for_list (\<lambda>(x, y, z). marchCell K x y z) (scan_cells g) (g\<lparr>meshVertexes := []\<rparr>)
       \<and> (\<forall>(x, y, z) \<in> set (scan_cells g).
            of_nat x < vx (sizeV g) * resolution g - 1
          \<and> of_nat y < vy (sizeV g) * resolution g - 1
          \<and> of_nat z < vz (sizeV g) * resolution g - 1
          \<and> (\<forall>c \<in> set (CORNER_ARRAY K).
                in_extent g (of_nat x + vx c) (of_nat y + vy c) (of_nat z + vz c))
          \<and> (\<exists>cubeConfigByte. cubeConfig K g x y z = Inr cubeConfigByte))"
proof (intro conjI ballI)
  show "marchCubes K g
           = for_list (\<lambda>(x, y, z). marchCell K x y z) (scan_cells g) (g\<lparr>meshVertexes := []\<rparr>)"
    by (rule marchCubes_scan)
next
  fix cell assume cell: "cell \<in> set (scan_cells g)"
  obtain x y z where xyz: "cell = (x, y, z)" by (cases cell) auto
  note b = scan_cells_bounds [OF cell [unfolded xyz]]
  have corner: "in_extent g (of_nat x + vx c) (of_nat y + vy c) (of_nat z + vz c)
       \<and> (\<exists>b. is_above g (of_nat x + vx c) (of_nat y + vy c) (of_nat z + vz c) = Inr b)"
    if "c \<in> set (CORNER_ARRAY K)" for c
    using corner_in_extent [OF assms(1), of x y z c] b that assms(2)
    by (simp add: unit_corners_def)
  then have "\<exists>w. cubeConfig K g x y z = Inr w"
    unfolding cubeConfig_def by (intro corners_loop_total) blast
  with b corner assms(1) show "case cell of (x, y, z) \<Rightarrow>
            of_nat x < vx (sizeV g) * resolution g - 1
          \<and> of_nat y < vy (sizeV g) * resolution g - 1
          \<and> of_nat z < vz (sizeV g) * resolution g - 1
          \<and> (\<forall>c \<in> set (CORNER_ARRAY K).
                in_extent g (of_nat x + vx c) (of_nat y + vy c) (of_nat z + vz c))
          \<and> (\<exists>cubeConfigByte. cubeConfig K g x y z = Inr cubeConfigByte)"
    by (simp add: xyz shape_ok_def)
qed

theorem scan_within_extents_witness:
  "shape_ok g333 \<and> unit_corners K0
   \<and> marchCubes K0 g333
         = for_list (\<lambda>(x, y, z). marchCell K0 x y z) (scan_cells g333) (g333\<lparr>meshVertexes := []\<rparr>)
   \<and> (1, 1, 1) \<in> set (scan_cells g333) \<and> vec 1 1 1 \<in> set (CORNER_ARRAY K0)
   \<and> of_nat 1 < vx (sizeV g333) * resolution g333 - 1
   \<and> of_nat 1 < vy (sizeV g333) * resolution g333 - 1
   \<and> of_nat 1 < vz (sizeV g333) * resolution g333 - 1
   \<and> in_extent g333 (of_nat 1 + vx (vec 1 1 1)) (of_nat 1 + vy (vec 1 1 1))
        (of_nat 1 + vz (vec 1 1 1))
   \<and> (\<exists>cubeConfigByte. cubeConfig K0 g333 1 1 1 = Inr cubeConfigByte)"
proof -
  have cell: "(1, 1, 1) \<in> set (scan_cells g333)" by code_simp
  have corner: "vec 1 1 1 \<in> set (CORNER_ARRAY K0)" by code_simp
  from scan_within_extents [OF shape_ok_g333 unit_corners_K0] cell corner
    shape_ok_g333 unit_corners_K0
  show ?thesis by fastforce
qed

section \<open>The vertices of a cell\<close>

lemma triangles_loop_stop:
  "\<not> (i < length triangles \<and> triangles ! i \<noteq> - 1)
     \<Longrightarrow> triangles_loop K x y z triangles i g = Normal g"
  by (subst triangles_loop.simps) auto

lemma triangles_loop_step:
  assumes "i < length triangles" and "triangles ! i \<noteq> - 1"
    and "getEdgeMidpoint (edge_at K triangles i) (resolution g) = Inr v1"
    and "getEdgeMidpoint (edge_at K triangles (i + 1)) (resolution g) = Inr v2"
    and "getEdgeMidpoint (edge_at K triangles (i + 2)) (resolution g) = Inr v3"
  shows "triangles_loop K x y z triangles i g
       = triangles_loop K x y z triangles (i + 3)
           (g\<lparr>meshVertexes := meshVertexes g @
                    [add (vec (of_nat x / resolution g) (of_nat y / resolution g)
                            (of_nat z / resolution g)) v1,
                     add (vec (of_nat x / resolution g) (of_nat y / resolution g)
                            (of_nat z / resolution g)) v2,
                     add (vec (of_nat x / resolution g) (of_nat y / resolution g)
                            (of_nat z / resolution g)) v3]\<rparr>)"
  by (subst triangles_loop.simps) (simp only: assms if_True if_False sum.case)

lemma edge_triples_stop: "edge_triples (- 1 # rest) = []"
  by (cases rest rule: edge_triples.cases) simp_all

lemma getEdgeMidpoint_spec:
  assumes "getEdgeMidpoint (js_index (EDGE_ARRAY K) k) res = Inr v"
  shows "spec_vertex K res x y z k
           = Some (add (vec (of_nat x / res) (of_nat y / res) (of_nat z / res)) v)"
proof -
  from assms obtain e p0 p1 where e: "js_index (EDGE_ARRAY K) k = Some e"
    and p0: "js_index e 0 = Some p0" and p1: "js_index e 1 = Some p1"
    and v: "v = multiplyScalar (add (createScaledVector p0 res) (createScaledVector p1 res)) (1 / 2)"
    by (auto simp: getEdgeMidpoint_def split: option.splits)
  from p0 p1 have "e \<noteq> []" "1 < length e" "p0 = e ! 0" "p1 = e ! 1"
    by (auto simp: js_index_0 js_index_1 split: if_splits)
  then obtain ps where "e = p0 # p1 # ps"
    by (cases e; cases "tl e") auto
  with e v show ?thesis
    by (simp add: spec_vertex_def midpoint_vertex_def add_def multiplyScalar_def
        createScaledVector_def vec_def add_divide_distrib)
qed

lemma edge_at_SomeD: "edge_at K triangles j = Some e \<Longrightarrow> j < length triangles"
  by (auto simp: edge_at_def js_index_of_nat split: option.splits if_splits)

lemma getEdgeMidpoint_InrD: "getEdgeMidpoint edge res = Inr v \<Longrightarrow> \<exists>e. edge = Some e"
  by (auto simp: getEdgeMidpoint_def split: option.splits)

lemma edge_at_nth: "j < length triangles \<Longrightarrow> edge_at K triangles j = js_index (EDGE_ARRAY K) (triangles ! j)"
  by (simp add: edge_at_def js_index_of_nat)

lemma triangles_loop_midpoints:
  "triangles_loop K x y z triangles i g = Normal g' \<Longrightarrow>
   map Some (meshVertexes g')
     = map Some (meshVertexes g)
       @ map (spec_vertex K (resolution g) x y z) (edge_triples (drop i triangles))"
proof (induction K x y z triangles i g rule: triangles_loop.induct)
  case (1 K x y z triangles i g)
  show ?case
  proof (cases "i < length triangles \<and> triangles ! i \<noteq> - 1")
    case False
    then have "edge_triples (drop i triangles) = []"
    proof (cases "i < length triangles")
      case True
      with False have "drop i triangles = - 1 # drop (Suc i) triangles"
        by (simp add: Cons_nth_drop_Suc [symmetric])
      then show ?thesis by (simp add: edge_triples_stop)
    qed simp
    moreover from False "1.prems" have "g' = g" by (simp add: triangles_loop_stop)
    ultimately show ?thesis by simp
  next
    case True
    then have t: "i < length triangles" "triangles ! i \<noteq> - 1" by simp_all
    from "1.prems" t obtain v1 v2 v3 where
      v1: "getEdgeMidpoint (edge_at K triangles i) (resolution g) = Inr v1" and
      v2: "getEdgeMidpoint (edge_at K triangles (i + 1)) (resolution g) = Inr v2" and
      v3: "getEdgeMidpoint (edge_at K triangles (i + 2)) (resolution g) = Inr v3"
      by (subst (asm) triangles_loop.simps) (auto split: sum.splits)
    let ?base = "vec (of_nat x / resolution g) (of_nat y / resolution g) (of_nat z / resolution g)"
    let ?g1 = "g\<lparr>meshVertexes := meshVertexes g @ [add ?base v1, add ?base v2, add ?base v3]\<rparr>"
    from "1.prems" have next_run: "triangles_loop K x y z triangles (i + 3) ?g1 = Normal g'"
      by (simp only: triangles_loop_step [OF t v1 v2 v3])
    from getEdgeMidpoint_InrD [OF v2] getEdgeMidpoint_InrD [OF v3]
    have len: "i + 1 < length triangles" "i + 2 < length triangles"
      by (auto dest: edge_at_SomeD)
    define a b c rest where "a = triangles ! i" and "b = triangles ! (i + 1)"
      and "c = triangles ! (i + 2)" and "rest = drop (i + 3) triangles"
    have "drop i triangles = triangles ! i # drop (Suc i) triangles"
      using t(1) by (simp add: Cons_nth_drop_Suc)
    also have "drop (Suc i) triangles = triangles ! (i + 1) # drop (Suc (Suc i)) triangles"
      using len(1) by (simp add: Cons_nth_drop_Suc)
    also have "drop (Suc (Suc i)) triangles = triangles ! (i + 2) # drop (i + 3) triangles"
      using len(2) by (simp add: Cons_nth_drop_Suc [symmetric] numeral_3_eq_3)
    finally have d: "drop i triangles = a # b # c # rest"
      by (simp only: a_def b_def c_def rest_def)
    have s: "spec_vertex K (resolution g) x y z a = Some (add ?base v1)"
      "spec_vertex K (resolution g) x y z b = Some (add ?base v2)"
      "spec_vertex K (resolution g) x y z c = Some (add ?base v3)"
      unfolding a_def b_def c_def
      using v1 v2 v3 t(1) len by (simp_all only: edge_at_nth getEdgeMidpoint_spec)
    have "map Some (meshVertexes g')
        = map Some (meshVertexes ?g1)
          @ map (spec_vertex K (resolution ?g1) x y z) (edge_triples rest)"
      unfolding rest_def using "1.IH" [OF t v1 v2 v3 next_run] .
    moreover have "a \<noteq> - 1" using t(2) by (simp add: a_def)
    ultimately show ?thesis
      by (simp add: d s)
  qed
qed

text \<open>
  Claim C6. When the body of the scan completes on the cell \<open>(x, y, z)\<close>, the vertices
  it has pushed are, in the order of the edge indices that the row of the triangle table
  refers to, the points \<open>spec_vertex\<close>: the midpoint of the two end points of the edge
  (factor one half, whatever the scalar values at the corners are) divided by the
  resolution, plus the position of the cell divided by the resolution.
\<close>

theorem emitted_vertices_are_midpoints:
  assumes "marchCell K x y z g = Normal g'"
  shows "\<exists>cubeConfigByte triangles.
           cubeConfig K g x y z = Inr cubeConfigByte
         \<and> js_index (TRIANGLE_TABLE K) (of_int (sint cubeConfigByte)) = Some triangles
         \<and> map Some (meshVertexes g')
             = map Some (meshVertexes g)
               @ map (spec_vertex K (resolution g) x y z) (edge_triples triangles)"
proof -
  from assms obtain w triangles where w: "cubeConfig K g x y z = Inr w"
    and row: "js_index (TRIANGLE_TABLE K) (of_int (sint w)) = Some triangles"
    and run: "triangles_loop K x y z triangles 0 g = Normal g'"
    by (auto simp: marchCell_def split: sum.splits option.splits)
  from triangles_loop_midpoints [OF run] w row show ?thesis by auto
qed

lemma run000: "marchCell K0 0 0 0 g333
     = Normal (g333\<lparr>meshVertexes := [vec 1 (1 / 2) 1, vec (1 / 2) 1 1, vec 1 1 (1 / 2)]\<rparr>)"
proof -
  have n: "is_Normal (marchCell K0 0 0 0 g333)" by code_simp
  have m: "meshVertexes (state_of (marchCell K0 0 0 0 g333))
      = [vec 1 (1 / 2) 1, vec (1 / 2) 1 1, vec 1 1 (1 / 2)]"
    by code_simp
  from marchCell_appended [of g333 K0 0 0 0] obtain vs
    where "state_of (marchCell K0 0 0 0 g333) = g333\<lparr>meshVertexes := meshVertexes g333 @ vs\<rparr>"
    by (auto simp: appended_def)
  with m have "state_of (marchCell K0 0 0 0 g333)
      = g333\<lparr>meshVertexes := [vec 1 (1 / 2) 1, vec (1 / 2) 1 1, vec 1 1 (1 / 2)]\<rparr>"
    by (metis VoxelGrid.select_convs(6) VoxelGrid.surjective VoxelGrid.update_convs(6))
  with n show ?thesis by (cases "marchCell K0 0 0 0 g333") simp_all
qed

theorem emitted_vertices_are_midpoints_witness:
  "marchCell K0 0 0 0 g333
     = Normal (g333\<lparr>meshVertexes := [vec 1 (1 / 2) 1, vec (1 / 2) 1 1, vec 1 1 (1 / 2)]\<rparr>)
   \<and> (\<exists>cubeConfigByte triangles.
           cubeConfig K0 g333 0 0 0 = Inr cubeConfigByte
         \<and> js_index (TRIANGLE_TABLE K0) (of_int (sint cubeConfigByte)) = Some triangles
         \<and> map Some [vec 1 (1 / 2) 1, vec (1 / 2) 1 1, vec 1 1 (1 / 2)]
             = map Some (meshVertexes g333)
               @ map (spec_vertex K0 (resolution g333) 0 0 0) (edge_triples triangles))"
  using emitted_vertices_are_midpoints [OF run000] run000 by simp

section \<open>Completion of the extraction\<close>

lemma for_list_total:
  assumes step: "\<And>a s. a \<in> set as \<Longrightarrow> I s \<Longrightarrow> is_Normal (body a s) \<and> I (state_of (body a s))"
    and init: "I s"
  shows "is_Normal (for_list body as s)"
  using assms
proof (induction as arbitrary: s)
  case Nil
  then show ?case by simp
next
  case (Cons a as)
  have a: "is_Normal (body a s) \<and> I (state_of (body a s))" using Cons.prems by simp
  then obtain s' where s': "body a s = Normal s'" by (cases "body a s") auto
  with a have "I s'" by simp
  then have "is_Normal (for_list body as s')" using Cons.IH Cons.prems(1) by simp
  with s' show ?case by simp
qed

lemma small_config:
  fixes w :: "32 word"
  assumes "\<And>k. bit w k \<Longrightarrow> k < 8"
  shows "0 \<le> sint w \<and> sint w < 256"
proof -
  have "take_bit 8 w = w"
    by (rule bit_eqI) (use assms in \<open>auto simp: bit_take_bit_iff\<close>)
  then have "uint w = take_bit 8 (uint w)"
    by (metis unsigned_take_bit_eq)
  then have u: "uint w < 256"
    using take_bit_int_less_exp [of 8 "uint w"] by simp
  have small: "\<forall>k. bit w k \<longrightarrow> k < 8" using assms by blast
  then have "\<not> bit w 31" by auto
  then have "sint w = uint w"
    by (intro bit_eqI) (use small in \<open>auto simp: bit_sint_iff bit_uint_iff\<close>)
  with u show ?thesis by simp
qed

lemma getEdgeMidpoint_total:
  assumes "has_edge K k"
  shows "\<exists>v. getEdgeMidpoint (js_index (EDGE_ARRAY K) k) res = Inr v"
proof -
  from assms obtain e where e: "js_index (EDGE_ARRAY K) k = Some e" and l: "2 \<le> length e"
    by (auto simp: has_edge_def split: option.splits)
  from l have "e \<noteq> []" "1 < length e" by auto
  with e show ?thesis
    by (simp add: getEdgeMidpoint_def js_index_0 js_index_1)
qed

lemma triangles_loop_total:
  "wf_row K (drop i triangles) \<Longrightarrow> is_Normal (triangles_loop K x y z triangles i g)"
proof (induction K x y z triangles i g rule: triangles_loop.induct)
  case (1 K x y z triangles i g)
  show ?case
  proof (cases "i < length triangles \<and> triangles ! i \<noteq> - 1")
    case False
    then show ?thesis
      by (simp add: triangles_loop_stop)
  next
    case True
    then have d: "drop i triangles = triangles ! i # drop (Suc i) triangles"
      by (simp add: Cons_nth_drop_Suc)
    with "1.prems" True obtain b c rest where
      r: "drop (Suc i) triangles = b # c # rest"
      and e: "has_edge K (triangles ! i)" "has_edge K b" "has_edge K c"
      and w: "wf_row K rest"
      by (auto split: list.splits)
    from r have "length (drop (Suc i) triangles) = 2 + length rest" by simp
    then have len: "i + 2 < length triangles" by simp
    from r have "drop (Suc i) triangles ! 0 = b" "drop (Suc i) triangles ! 1 = c"
      "drop 2 (drop (Suc i) triangles) = rest"
      by simp_all
    with len have b: "triangles ! (i + 1) = b" and c: "triangles ! (i + 2) = c"
      and rest: "drop (i + 3) triangles = rest"
      by (simp_all add: add.commute numeral_3_eq_3)
    from len have ea: "edge_at K triangles i = js_index (EDGE_ARRAY K) (triangles ! i)"
      "edge_at K triangles (i + 1) = js_index (EDGE_ARRAY K) (triangles ! (i + 1))"
      "edge_at K triangles (i + 2) = js_index (EDGE_ARRAY K) (triangles ! (i + 2))"
      by (simp_all add: edge_at_nth)
    from getEdgeMidpoint_total [OF e(1), of "resolution g"] obtain v1
      where v1: "getEdgeMidpoint (edge_at K triangles i) (resolution g) = Inr v1"
      unfolding ea by blast
    from getEdgeMidpoint_total [OF e(2), of "resolution g"] obtain v2
      where v2: "getEdgeMidpoint (edge_at K triangles (i + 1)) (resolution g) = Inr v2"
      unfolding ea b by blast
    from getEdgeMidpoint_total [OF e(3), of "resolution g"] obtain v3
      where v3: "getEdgeMidpoint (edge_at K triangles (i + 2)) (resolution g) = Inr v3"
      unfolding ea c by blast
    have "is_Normal (triangles_loop K x y z triangles (i + 3)
            (g\<lparr>meshVertexes := meshVertexes g @
                    [add (vec (of_nat x / resolution g) (of_nat y / resolution g)
                            (of_nat z / resolution g)) v1,
                     add (vec (of_nat x / resolution g) (of_nat y / resolution g)
                            (of_nat z / resolution g)) v2,
                     add (vec (of_nat x / resolution g) (of_nat y / resolution g)
                            (of_nat z / resolution g)) v3]\<rparr>))"
      using "1.IH" [OF _ _ v1 v2 v3] True w rest by simp
    moreover from True have "i < length triangles" "triangles ! i \<noteq> - 1" by simp_all
    note triangles_loop_step [OF this v1 v2 v3, of x y z]
    ultimately show ?thesis by simp
  qed
qed

lemma above_cong: "grid s = grid g \<Longrightarrow> isovalue s = isovalue g \<Longrightarrow> is_above s a b c = is_above g a b c"
  by (simp add: is_above_def split: option.splits)

lemma corners_loop_cong:
  "grid s = grid g \<Longrightarrow> isovalue s = isovalue g
     \<Longrightarrow> corners_loop s x y z i cs w0 = corners_loop g x y z i cs w0"
  by (induction cs arbitrary: i w0) (simp_all add: above_cong [of s g] split: sum.splits)

lemma cubeConfig_cong:
  "grid s = grid g \<Longrightarrow> isovalue s = isovalue g \<Longrightarrow> cubeConfig K s x y z = cubeConfig K g x y z"
  by (simp add: cubeConfig_def corners_loop_cong [of s g])

lemma marchCell_total:
  assumes shape: "shape_ok g" and wf: "wf_constants K"
    and x: "of_nat x < vx (sizeV g) * resolution g - 1"
    and y: "of_nat y < vy (sizeV g) * resolution g - 1"
    and z: "of_nat z < vz (sizeV g) * resolution g - 1"
    and s: "grid s = grid g" "isovalue s = isovalue g"
  shows "is_Normal (marchCell K x y z s)"
proof -
  from wf have unit: "unit_corners K" and eight: "length (CORNER_ARRAY K) = 8"
    and rows: "length (TRIANGLE_TABLE K) = 256"
    and wfr: "\<And>triangles. triangles \<in> set (TRIANGLE_TABLE K) \<Longrightarrow> wf_row K triangles"
    by (simp_all add: wf_constants_def)
  have "\<exists>b. is_above g (of_nat x + vx c) (of_nat y + vy c) (of_nat z + vz c) = Inr b"
    if "c \<in> set (CORNER_ARRAY K)" for c
    using corner_in_extent [OF shape x y z, of c] that unit by (simp add: unit_corners_def)
  then have "\<exists>w. cubeConfig K g x y z = Inr w"
    unfolding cubeConfig_def by (intro corners_loop_total) blast
  then obtain w where w: "cubeConfig K g x y z = Inr w" ..
  have "k < 8" if "bit w k" for k
    using corners_loop_bits [OF w [unfolded cubeConfig_def], of k] that eight by simp
  then have range: "0 \<le> sint w" "sint w < 256" using small_config [of w] by blast+
  let ?row = "TRIANGLE_TABLE K ! nat (sint w)"
  have "js_index (TRIANGLE_TABLE K) (of_int (sint w))
      = (if 0 \<le> sint w \<and> sint w < int (length (TRIANGLE_TABLE K)) then Some ?row else None)"
    by (rule js_index_of_int)
  with range rows have row: "js_index (TRIANGLE_TABLE K) (of_int (sint w)) = Some ?row"
    by simp
  from range rows have "?row \<in> set (TRIANGLE_TABLE K)" by simp
  then have "wf_row K (drop 0 ?row)" using wfr by simp
  then have "is_Normal (triangles_loop K x y z ?row 0 s)"
    by (rule triangles_loop_total)
  with w row show ?thesis
    by (simp add: marchCell_def cubeConfig_cong [OF s])
qed

lemma marchCubes_total:
  assumes "shape_ok g" and "wf_constants K"
  shows "is_Normal (marchCubes K g)"
  unfolding marchCubes_scan
proof (rule for_list_total [where I = "appended (g\<lparr>meshVertexes := []\<rparr>)"])
  show "appended (g\<lparr>meshVertexes := []\<rparr>) (g\<lparr>meshVertexes := []\<rparr>)"
    by (rule appended_refl)
next
  fix cell s
  assume cell: "cell \<in> set (scan_cells g)" and s: "appended (g\<lparr>meshVertexes := []\<rparr>) s"
  obtain x y z where xyz: "cell = (x, y, z)" by (cases cell) auto
  note b = scan_cells_bounds [OF cell [unfolded xyz]]
  from appended_fields [OF s] have f: "grid s = grid g" "isovalue s = isovalue g" by simp_all
  have "is_Normal (marchCell K x y z s)"
    using marchCell_total [OF assms _ _ _ f] b by blast
  moreover have "appended (g\<lparr>meshVertexes := []\<rparr>) (state_of (marchCell K x y z s))"
    using s marchCell_appended by (rule appended_trans)
  ultimately show "is_Normal ((case cell of (x, y, z) \<Rightarrow> marchCell K x y z) s)
      \<and> appended (g\<lparr>meshVertexes := []\<rparr>)
          (state_of ((case cell of (x, y, z) \<Rightarrow> marchCell K x y z) s))"
    by (simp add: xyz)
qed

lemma wf_constants_K0: "wf_constants K0"
  by code_simp

text \<open>
  Claim C4. The vertex buffer that \<open>marchCubes\<close> leaves has a length divisible by 3,
  in every outcome, since vertices are pushed three at a time. For a field that
  satisfies the shape invariant, any isovalue, and well-formed tables the extraction
  completes, so the list is produced.
\<close>

theorem vertex_count_multiple_of_3:
  "3 dvd length (meshVertexes (state_of (marchCubes K g)))
     \<and> (shape_ok g \<and> wf_constants K \<longrightarrow> is_Normal (marchCubes K g))"
  using marchCubes_triples [of K g] marchCubes_total [of g K] by blast

theorem vertex_count_multiple_of_3_witness:
  "shape_ok g333 \<and> wf_constants K0 \<and> is_Normal (marchCubes K0 g333)
     \<and> 3 dvd length (meshVertexes (state_of (marchCubes K0 g333)))"
  using vertex_count_multiple_of_3 [of K0 g333] shape_ok_g333 wf_constants_K0 by blast

section \<open>Initialization\<close>

lemma from_calls_const:
  "from_calls n (\<lambda>_. c)
     = (if n = 0 then Inr [] else (case c of Inl e \<Rightarrow> Inl e | Inr v \<Rightarrow> Inr (replicate n v)))"
proof (induction n)
  case 0
  then show ?case by simp
next
  case (Suc n)
  then show ?case
    by (cases c) (auto simp: replicate_append_same)
qed

lemma key_in_range:
  assumes "is_int k" "0 \<le> k" "k < of_nat n"
  shows "nat \<lfloor>k\<rfloor> < n"
proof -
  from assms(1) have "of_int \<lfloor>k\<rfloor> = k" by (simp add: is_int_def)
  with assms(2,3) show ?thesis
    by (metis floor_less_iff nat_less_iff of_int_of_nat_eq zero_le_floor)
qed

lemma js_index_update:
  "js_index (xs[n := v]) k
     = (if is_int k \<and> 0 \<le> k \<and> k < of_nat (length xs) \<and> nat \<lfloor>k\<rfloor> = n then Some v
        else js_index xs k)"
  by (auto simp: js_index_def key_in_range)

lemma key_eq:
  assumes "is_int a" "0 \<le> a" "is_int k" "0 \<le> k"
  shows "nat \<lfloor>k\<rfloor> = nat \<lfloor>a\<rfloor> \<longleftrightarrow> k = a"
proof
  assume "nat \<lfloor>k\<rfloor> = nat \<lfloor>a\<rfloor>"
  with assms(2,4) have "\<lfloor>k\<rfloor> = \<lfloor>a\<rfloor>" by (simp add: nat_eq_iff)
  with assms(1,3) show "k = a" by (metis is_int_def)
qed simp

lemma seed_Normal_iff:
  "seed a b c s = Normal s' \<longleftrightarrow>
     (\<exists>plane r. js_index (grid s) a = Some plane \<and> js_index plane b = Some r
        \<and> s' = s\<lparr>grid := (grid s)[nat \<lfloor>a\<rfloor> := plane[nat \<lfloor>b\<rfloor> := row_set r c 1]]\<rparr>)"
  by (auto simp: seed_def split: option.splits)

lemma seed_Throw: "seed a b c s = Throw e s' \<Longrightarrow> e = TypeError \<and> s' = s"
  by (auto simp: seed_def split: option.splits)

lemma seed_is_Normal: "is_Normal (seed a b c s) \<longleftrightarrow> xy_defined (grid s) a b"
  by (auto simp: seed_def xy_defined_def split: option.splits)

lemma seed_value:
  assumes "seed a b c s = Normal s'"
  shows "grid_value s' x y z = (if x = a \<and> y = b \<and> z = c then Some 1 else grid_value s x y z)"
proof -
  from assms obtain plane r where p: "js_index (grid s) a = Some plane"
    and r: "js_index plane b = Some r"
    and s': "s' = s\<lparr>grid := (grid s)[nat \<lfloor>a\<rfloor> := plane[nat \<lfloor>b\<rfloor> := row_set r c 1]]\<rparr>"
    by (auto simp: seed_Normal_iff)
  note pa = js_index_SomeD [OF p] and rb = js_index_SomeD [OF r]
  have xa: "nat \<lfloor>x\<rfloor> = nat \<lfloor>a\<rfloor> \<longleftrightarrow> x = a" if "is_int x" "0 \<le> x"
    using key_eq [of a x] pa that by simp
  have yb: "nat \<lfloor>y\<rfloor> = nat \<lfloor>b\<rfloor> \<longleftrightarrow> y = b" if "is_int y" "0 \<le> y"
    using key_eq [of b y] rb that by simp
  show ?thesis
  proof (cases "x = a")
    case True
    note x = this
    show ?thesis
    proof (cases "y = b")
      case True
      with x p r pa rb show ?thesis
        by (simp add: s' grid_value_def js_index_update row_set_def)
    next
      case False
      with x p r pa rb yb show ?thesis
        by (auto simp: s' grid_value_def js_index_update)
    qed
  next
    case False
    with p pa xa show ?thesis
      by (auto simp: s' grid_value_def js_index_update)
  qed
qed

lemma xy_defined_iff:
  "xy_defined gr x y \<longleftrightarrow>
     is_int x \<and> 0 \<le> x \<and> x < of_nat (length gr) \<and>
     is_int y \<and> 0 \<le> y \<and> y < of_nat (length (gr ! nat \<lfloor>x\<rfloor>))"
  by (auto simp: xy_defined_def js_index_def)

lemma seed_xy_defined:
  assumes "seed a b c s = Normal s'"
  shows "xy_defined (grid s') x y = xy_defined (grid s) x y"
proof -
  from assms obtain plane r where p: "js_index (grid s) a = Some plane"
    and s': "s' = s\<lparr>grid := (grid s)[nat \<lfloor>a\<rfloor> := plane[nat \<lfloor>b\<rfloor> := row_set r c 1]]\<rparr>"
    by (auto simp: seed_Normal_iff)
  from js_index_SomeD [OF p] have plane: "plane = grid s ! nat \<lfloor>a\<rfloor>" by simp
  have "length (grid s' ! i) = length (grid s ! i)" if "i < length (grid s)" for i
    using that by (cases "i = nat \<lfloor>a\<rfloor>") (simp_all add: s' plane)
  moreover have "length (grid s') = length (grid s)" by (simp add: s')
  ultimately show ?thesis
    by (auto simp: xy_defined_iff key_in_range)
qed

lemma chain8:
  "for_list f [k1, k2, k3, k4, k5, k6, k7, k8] s
     = and_then (and_then (and_then (and_then (and_then (and_then (and_then
         (f k1 s) (f k2)) (f k3)) (f k4)) (f k5)) (f k6)) (f k7)) (f k8)"
  by (simp split: outcome.splits)

lemma initializeGrid_seeding:
  "initializeGrid g
     = (case allocate g of
          Inl e \<Rightarrow> Throw e g
        | Inr a \<Rightarrow> for_list (\<lambda>(x, y, z). seed x y z) (seed_keys g) (g\<lparr>grid := a\<rparr>))"
  by (simp add: initializeGrid_def seed_keys_def Let_def chain8 del: for_list.simps
      split: sum.splits)

lemma seeding_Normal:
  "for_list (\<lambda>(x, y, z). seed x y z) ks s = Normal s' \<Longrightarrow>
     list_all (\<lambda>(x, y, z). xy_defined (grid s) x y) ks
   \<and> (\<forall>x y z. grid_value s' x y z = (if (x, y, z) \<in> set ks then Some 1 else grid_value s x y z))
   \<and> (\<forall>x y. xy_defined (grid s') x y = xy_defined (grid s) x y)
   \<and> s'\<lparr>grid := grid s\<rparr> = s"
proof (induction ks arbitrary: s)
  case Nil
  then show ?case by simp
next
  case (Cons k ks)
  obtain a b c where k: "k = (a, b, c)" by (cases k) auto
  from Cons.prems obtain s1 where s1: "seed a b c s = Normal s1"
    and rest: "for_list (\<lambda>(x, y, z). seed x y z) ks s1 = Normal s'"
    by (auto simp: k split: outcome.splits)
  note IH = Cons.IH [OF rest]
  from s1 have ok: "xy_defined (grid s) a b"
    using seed_is_Normal [of a b c s] by simp
  from s1 have frame: "s1\<lparr>grid := grid s\<rparr> = s" by (auto simp: seed_Normal_iff)
  have "s'\<lparr>grid := grid s\<rparr> = s"
  proof -
    from IH have "s'\<lparr>grid := grid s1\<rparr> = s1" by simp
    then have "(s'\<lparr>grid := grid s1\<rparr>)\<lparr>grid := grid s\<rparr> = s1\<lparr>grid := grid s\<rparr>" by simp
    with frame show ?thesis by simp
  qed
  moreover have "list_all (\<lambda>(x, y, z). xy_defined (grid s) x y) (k # ks)"
    using IH ok by (simp add: k seed_xy_defined [OF s1])
  moreover have "\<forall>x y z. grid_value s' x y z
      = (if (x, y, z) \<in> set (k # ks) then Some 1 else grid_value s x y z)"
    using IH by (auto simp: k seed_value [OF s1])
  moreover have "\<forall>x y. xy_defined (grid s') x y = xy_defined (grid s) x y"
    using IH by (simp add: seed_xy_defined [OF s1])
  ultimately show ?case by blast
qed

lemma seeding_is_Normal:
  "list_all (\<lambda>(x, y, z). xy_defined (grid s) x y) ks
     \<Longrightarrow> is_Normal (for_list (\<lambda>(x, y, z). seed x y z) ks s)"
proof (induction ks arbitrary: s)
  case Nil
  then show ?case by simp
next
  case (Cons k ks)
  obtain a b c where k: "k = (a, b, c)" by (cases k) auto
  from Cons.prems have "xy_defined (grid s) a b" by (simp add: k)
  then obtain s1 where s1: "seed a b c s = Normal s1"
    using seed_is_Normal [of a b c s] by (cases "seed a b c s") auto
  from Cons.prems have "list_all (\<lambda>(x, y, z). xy_defined (grid s1) x y) ks"
    by (simp add: k seed_xy_defined [OF s1])
  from Cons.IH [OF this] s1 show ?case by (simp add: k)
qed

lemma seeding_Throw:
  "for_list (\<lambda>(x, y, z). seed x y z) ks s = Throw e s' \<Longrightarrow> e = TypeError"
proof (induction ks arbitrary: s)
  case Nil
  then show ?case by simp
next
  case (Cons k ks)
  obtain a b c where k: "k = (a, b, c)" by (cases k) auto
  show ?case
  proof (cases "seed a b c s")
    case (Normal s1)
    with Cons.prems have "for_list (\<lambda>(x, y, z). seed x y z) ks s1 = Throw e s'"
      by (simp add: k)
    then show ?thesis by (rule Cons.IH)
  next
    case (Throw e1 s1)
    with Cons.prems seed_Throw [OF Throw] show ?thesis by (simp add: k)
  qed
qed

lemma Array_from_const:
  "Array_from n (\<lambda>_. c)
     = (if ToLength n > 2 ^ 32 - 1 then Inl RangeError
        else if nat (ToLength n) = 0 then Inr []
        else (case c of Inl e \<Rightarrow> Inl e | Inr v \<Rightarrow> Inr (replicate (nat (ToLength n)) v)))"
  by (simp add: Array_from_def from_calls_const)

lemma Array_fill_Inl: "Array_fill n v = Inl e \<Longrightarrow> e = RangeError"
  by (auto simp: Array_fill_def split: if_splits)

lemma allocate_Inl: "allocate g = Inl e \<Longrightarrow> e = RangeError"
  by (auto simp: allocate_def Array_from_const dest: Array_fill_Inl split: if_splits sum.splits)

lemma allocate_Inr:
  assumes "allocate g = Inr a"
  shows "a = []
       \<or> (\<exists>n. 0 < n \<and> a = replicate n [])
       \<or> (\<exists>n m r. 0 < n \<and> 0 < m \<and> a = replicate n (replicate m r)
            \<and> int n = ToLength (vx (sizeV g) * resolution g) \<and> int n \<le> 2 ^ 32 - 1
            \<and> int m = ToLength (vy (sizeV g) * resolution g) \<and> int m \<le> 2 ^ 32 - 1
            \<and> Array_fill (vz (sizeV g) * resolution g) (- 1) = Inr r)"
  using assms
  by (auto simp: allocate_def Array_from_const split: if_splits sum.splits)

lemma xy_defined_replicate:
  "xy_defined (replicate n (replicate m r)) x y \<longleftrightarrow>
     is_int x \<and> 0 \<le> x \<and> x < of_nat n \<and> is_int y \<and> 0 \<le> y \<and> y < of_nat m"
  by (auto simp: xy_defined_iff key_in_range)

lemma xy_defined_empty [simp]: "\<not> xy_defined [] x y" "\<not> xy_defined (replicate n []) x y"
  by (auto simp: xy_defined_iff key_in_range)

lemma allocate_defined:
  assumes "allocate g = Inr a" and "xy_defined a x y"
  obtains n m r where "0 < n" "0 < m" "a = replicate n (replicate m r)"
    "int n = ToLength (vx (sizeV g) * resolution g)" "int n \<le> 2 ^ 32 - 1"
    "int m = ToLength (vy (sizeV g) * resolution g)" "int m \<le> 2 ^ 32 - 1"
    "Array_fill (vz (sizeV g) * resolution g) (- 1) = Inr r"
  using allocate_Inr [OF assms(1)] assms(2) by auto

lemma allocate_value:
  assumes "allocate g = Inr a"
  shows "grid_value (g\<lparr>grid := a\<rparr>) x y z
       = (if xy_defined a x y \<and> is_int z \<and> 0 \<le> z \<and> z < vz (sizeV g) * resolution g
          then Some (- 1) else None)"
proof (cases "xy_defined a x y")
  case False
  then show ?thesis
    by (auto simp: grid_value_def xy_defined_def split: option.splits)
next
  case True
  from assms True obtain n m r where a: "a = replicate n (replicate m r)"
    and r: "Array_fill (vz (sizeV g) * resolution g) (- 1) = Inr r"
    by (rule allocate_defined)
  from True have xy: "is_int x" "0 \<le> x" "x < of_nat n" "is_int y" "0 \<le> y" "y < of_nat m"
    by (simp_all add: a xy_defined_replicate)
  then have "js_index a x = Some (replicate m r)" "js_index (replicate m r) y = Some r"
    by (simp_all add: a js_index_def key_in_range)
  moreover from r have "cells r z
      = (if is_int z \<and> 0 \<le> z \<and> z < vz (sizeV g) * resolution g then Some (- 1) else None)"
    by (auto simp: Array_fill_def split: if_splits)
  ultimately show ?thesis using True by (simp add: grid_value_def)
qed

lemma ToLength_exact:
  assumes "is_int p" and "0 < ToLength p" and "ToLength p \<le> 2 ^ 32 - 1"
  shows "of_int (ToLength p) = p"
proof -
  from assms(2) have "0 < p" by (auto simp: ToLength_def split: if_splits)
  with assms(3) have "ToLength p = \<lfloor>p\<rfloor>" by (auto simp: ToLength_def min_def split: if_splits)
  with assms(1) show ?thesis by (simp add: is_int_def)
qed

lemma is_int_double: "is_int (c / 2 * r) \<Longrightarrow> is_int (c * r)"
proof -
  assume "is_int (c / 2 * r)"
  then obtain n :: int where "c / 2 * r = of_int n" by (metis is_int_def)
  then have "c * r = of_int (2 * n)" by simp
  then show ?thesis unfolding is_int_def by (metis floor_of_int)
qed

lemma initializeGrid_NormalD:
  assumes "initializeGrid g = Normal g'"
  obtains a where "allocate g = Inr a"
    and "for_list (\<lambda>(x, y, z). seed x y z) (seed_keys g) (g\<lparr>grid := a\<rparr>) = Normal g'"
    and "list_all (\<lambda>(x, y, z). xy_defined a x y) (seed_keys g)"
proof -
  from assms obtain a where a: "allocate g = Inr a"
    and run: "for_list (\<lambda>(x, y, z). seed x y z) (seed_keys g) (g\<lparr>grid := a\<rparr>) = Normal g'"
    by (auto simp: initializeGrid_seeding split: sum.splits)
  from seeding_Normal [OF run] have "list_all (\<lambda>(x, y, z). xy_defined a x y) (seed_keys g)"
    by simp
  with a run that show ?thesis by blast
qed

lemma initializeGrid_Throw:
  assumes "initializeGrid g = Throw e s"
  shows "e = TypeError \<or> e = RangeError"
  using assms
  by (auto simp: initializeGrid_seeding split: sum.splits dest: allocate_Inl seeding_Throw)

lemma seed_dims:
  assumes "seed a b c s = Normal s'"
  shows "map length (grid s') = map length (grid s)"
proof -
  from assms obtain plane r where p: "js_index (grid s) a = Some plane"
    and s': "s' = s\<lparr>grid := (grid s)[nat \<lfloor>a\<rfloor> := plane[nat \<lfloor>b\<rfloor> := row_set r c 1]]\<rparr>"
    by (auto simp: seed_Normal_iff)
  from js_index_SomeD [OF p] have plane: "plane = grid s ! nat \<lfloor>a\<rfloor>" by simp
  have "length (((grid s)[nat \<lfloor>a\<rfloor> := (grid s ! nat \<lfloor>a\<rfloor>)[nat \<lfloor>b\<rfloor> := row_set r c 1]]) ! i)
      = length (grid s ! i)" if "i < length (grid s)" for i
    using that by (cases "i = nat \<lfloor>a\<rfloor>") simp_all
  then show ?thesis
    unfolding s' plane
    by (intro nth_equalityI) simp_all
qed

lemma seed_rows:
  assumes "seed a b c s = Normal s'" and "\<And>r. P r \<Longrightarrow> P (row_set r c 1)"
    and "list_all (list_all P) (grid s)"
  shows "list_all (list_all P) (grid s')"
proof -
  from assms(1) obtain plane r where p: "js_index (grid s) a = Some plane"
    and r: "js_index plane b = Some r"
    and s': "s' = s\<lparr>grid := (grid s)[nat \<lfloor>a\<rfloor> := plane[nat \<lfloor>b\<rfloor> := row_set r c 1]]\<rparr>"
    by (auto simp: seed_Normal_iff)
  from js_index_SomeD [OF p] have "plane \<in> set (grid s)" by blast
  with assms(3) have pl: "list_all P plane"
    by (auto simp: list_all_iff)
  from js_index_SomeD [OF r] have "r \<in> set plane" by blast
  with pl have "P r" by (auto simp: list_all_iff)
  then have "P (row_set r c 1)" by (rule assms(2))
  with pl have "list_all P (plane[nat \<lfloor>b\<rfloor> := row_set r c 1])"
    unfolding list_all_iff using set_update_subset_insert by fastforce
  with assms(3) show ?thesis
    unfolding s' list_all_iff using set_update_subset_insert by fastforce
qed

lemma seeding_dims:
  "for_list (\<lambda>(x, y, z). seed x y z) ks s = Normal s'
     \<Longrightarrow> map length (grid s') = map length (grid s)"
proof (induction ks arbitrary: s)
  case Nil
  then show ?case by simp
next
  case (Cons k ks)
  obtain a b c where k: "k = (a, b, c)" by (cases k) auto
  from Cons.prems obtain s1 where s1: "seed a b c s = Normal s1"
    and rest: "for_list (\<lambda>(x, y, z). seed x y z) ks s1 = Normal s'"
    by (auto simp: k split: outcome.splits)
  from Cons.IH [OF rest] seed_dims [OF s1] show ?case by simp
qed

lemma seeding_rows:
  "for_list (\<lambda>(x, y, z). seed x y z) ks s = Normal s'
     \<Longrightarrow> (\<And>r x y z. (x, y, z) \<in> set ks \<Longrightarrow> P r \<Longrightarrow> P (row_set r z 1))
     \<Longrightarrow> list_all (list_all P) (grid s) \<Longrightarrow> list_all (list_all P) (grid s')"
proof (induction ks arbitrary: s)
  case Nil
  then show ?case by simp
next
  case (Cons k ks)
  obtain a b c where k: "k = (a, b, c)" by (cases k) auto
  from Cons.prems(1) obtain s1 where s1: "seed a b c s = Normal s1"
    and rest: "for_list (\<lambda>(x, y, z). seed x y z) ks s1 = Normal s'"
    by (auto simp: k split: outcome.splits)
  have here: "P (row_set r c 1)" if "P r" for r
    using Cons.prems(2) [of a b c r] that by (simp add: k)
  have rows1: "list_all (list_all P) (grid s1)"
    using s1 here Cons.prems(3) by (rule seed_rows)
  show ?case
  proof (rule Cons.IH [OF rest _ rows1])
    fix r x y z
    assume "(x, y, z) \<in> set ks" and "P r"
    then show "P (row_set r z 1)"
      using Cons.prems(2) [of x y z r] by simp
  qed
qed

lemma row_set_len:
  fixes p :: number
  assumes "is_int p" and "0 \<le> p"
    and "int (len r) = \<lceil>p\<rceil> \<or> p = 0 \<and> len r = 1"
  shows "int (len (row_set r (p / 2) 1)) = \<lceil>p\<rceil> \<or> p = 0 \<and> len (row_set r (p / 2) 1) = 1"
proof (cases "p = 0")
  case True
  with assms(3) show ?thesis
    by (auto simp: row_set_def is_array_index_def is_int_def)
next
  case False
  with assms(2) have pos: "0 < p" by simp
  with assms(3) have l: "int (len r) = \<lceil>p\<rceil>" by simp
  from assms(1) have "of_int \<lceil>p\<rceil> = p"
    by (metis is_int_def ceiling_of_int)
  with l have "of_nat (len r) = p"
    by (metis of_int_of_nat_eq)
  moreover from pos have "p / 2 < p" by simp
  ultimately have "of_int \<lfloor>p / 2\<rfloor> < (of_nat (len r) :: rat)"
    by (metis floor_less_iff of_int_floor_le order_le_less_trans)
  then have "\<lfloor>p / 2\<rfloor> < int (len r)"
    by (metis of_int_less_iff of_int_of_nat_eq)
  moreover from pos have "0 \<le> \<lfloor>p / 2\<rfloor>" by simp
  ultimately have "nat \<lfloor>p / 2\<rfloor> < len r" by (simp add: nat_less_iff)
  then have "\<not> len r \<le> nat \<lfloor>p / 2\<rfloor>" by simp
  with l show ?thesis by (simp add: row_set_def)
qed

lemma seed_isovalue:
  "seed a b c (s\<lparr>isovalue := w\<rparr>) = map_outcome (\<lambda>t. t\<lparr>isovalue := w\<rparr>) (seed a b c s)"
  by (simp add: seed_def split: option.splits)

lemma seeding_isovalue:
  "for_list (\<lambda>(x, y, z). seed x y z) ks (s\<lparr>isovalue := w\<rparr>)
     = map_outcome (\<lambda>t. t\<lparr>isovalue := w\<rparr>) (for_list (\<lambda>(x, y, z). seed x y z) ks s)"
proof (induction ks arbitrary: s)
  case Nil
  then show ?case by simp
next
  case (Cons k ks)
  obtain a b c where k: "k = (a, b, c)" by (cases k) auto
  show ?case
    by (cases "seed a b c s") (simp_all add: k seed_isovalue Cons.IH)
qed

lemma initializeGrid_isovalue:
  "initializeGrid (g\<lparr>isovalue := w\<rparr>) = map_outcome (\<lambda>t. t\<lparr>isovalue := w\<rparr>) (initializeGrid g)"
proof -
  have "allocate (g\<lparr>isovalue := w\<rparr>) = allocate g" by (simp add: allocate_def)
  moreover have "seed_keys (g\<lparr>isovalue := w\<rparr>) = seed_keys g" by (simp add: seed_keys_def)
  moreover have "for_list (\<lambda>(x, y, z). seed x y z) (seed_keys g) (g\<lparr>isovalue := w, grid := a\<rparr>)
      = map_outcome (\<lambda>t. t\<lparr>isovalue := w\<rparr>)
          (for_list (\<lambda>(x, y, z). seed x y z) (seed_keys g) (g\<lparr>grid := a\<rparr>))" for a
  proof -
    have "g\<lparr>isovalue := w, grid := a\<rparr> = g\<lparr>grid := a, isovalue := w\<rparr>"
      by (cases g) simp
    then show ?thesis
      using seeding_isovalue [where ks = "seed_keys g" and s = "g\<lparr>grid := a\<rparr>" and w = w]
      by (simp only:)
  qed
  ultimately show ?thesis
    by (simp add: initializeGrid_seeding split: sum.splits)
qed

lemma allocate_ten:
  "allocate (unallocated 1 (vec 10 10 10) 0 (vec 0 0 0)) = Inr (uniform_grid 10 10 10 (- 1))"
  by (simp add: allocate_def Array_from_const Array_fill_def ToLength_def unallocated_def
      vec_def uniform_grid_def uniform_row_def is_int_def)

lemma allocate_flat:
  "allocate (unallocated 1 (vec 10 10 0) 0 (vec 0 0 0)) = Inr (uniform_grid 10 10 0 (- 1))"
  by (simp add: allocate_def Array_from_const Array_fill_def ToLength_def unallocated_def
      vec_def uniform_grid_def uniform_row_def is_int_def)

text \<open>
  Claim C2, as the code has it. \<open>initializeGrid\<close> does not look at the isovalue: it
  fills the array with the constant \<open>-1\<close> and then sets eight cells to \<open>1\<close>. When it
  completes, the array has \<open>size.x * resolution\<close> planes of \<open>size.y * resolution\<close> rows
  (both are integers then, so they are their own ceilings), every row has
  \<open>size.z * resolution\<close> cells (a seeded row has one cell when this number is 0). What
  the array holds is fixed key by key: \<open>1\<close> under each of the eight seed keys, \<open>-1\<close> in
  every other cell within the extents \<open>size * resolution\<close>, and nothing anywhere else.
  The same call with any other isovalue builds the same array, so the cells are below
  the isovalue only when the isovalue is above \<open>-1\<close> (for the seeds, above \<open>1\<close>).
\<close>

theorem initializeGrid_extents_and_fill:
  assumes "initializeGrid g = Normal g'"
  shows "int (length (grid g')) = \<lceil>vx (sizeV g) * resolution g\<rceil>
       \<and> list_all (\<lambda>plane. int (length plane) = \<lceil>vy (sizeV g) * resolution g\<rceil>) (grid g')
       \<and> list_all (list_all (\<lambda>r. int (len r) = \<lceil>vz (sizeV g) * resolution g\<rceil>
                                   \<or> vz (sizeV g) * resolution g = 0 \<and> len r = 1)) (grid g')
       \<and> (\<forall>x y z. grid_value g' x y z
             = (if (x, y, z) \<in> set (seed_keys g) then Some 1
                else if is_int x \<and> 0 \<le> x \<and> x < vx (sizeV g) * resolution g
                      \<and> is_int y \<and> 0 \<le> y \<and> y < vy (sizeV g) * resolution g
                      \<and> is_int z \<and> 0 \<le> z \<and> z < vz (sizeV g) * resolution g
                then Some (- 1)
                else None))
       \<and> (\<forall>w. initializeGrid (g\<lparr>isovalue := w\<rparr>) = Normal (g'\<lparr>isovalue := w\<rparr>))"
proof -
  let ?px = "vx (sizeV g) * resolution g" and ?py = "vy (sizeV g) * resolution g"
    and ?pz = "vz (sizeV g) * resolution g"
  let ?cx = "(vx (sizeV g) / 2) * resolution g" and ?cy = "(vy (sizeV g) / 2) * resolution g"
  let ?P = "\<lambda>r. int (len r) = \<lceil>?pz\<rceil> \<or> ?pz = 0 \<and> len r = 1"
  from assms obtain a where a: "allocate g = Inr a"
    and run: "for_list (\<lambda>(x, y, z). seed x y z) (seed_keys g) (g\<lparr>grid := a\<rparr>) = Normal g'"
    and ok: "list_all (\<lambda>(x, y, z). xy_defined a x y) (seed_keys g)"
    by (rule initializeGrid_NormalD)
  from ok have c: "xy_defined a ?cx ?cy" by (simp add: seed_keys_def Let_def)
  with a obtain n m r where nm: "0 < n" "0 < m" and rep: "a = replicate n (replicate m r)"
    and n: "int n = ToLength ?px" "int n \<le> 2 ^ 32 - 1"
    and m: "int m = ToLength ?py" "int m \<le> 2 ^ 32 - 1"
    and r: "Array_fill ?pz (- 1) = Inr r"
    by (rule allocate_defined)
  from c have "is_int ?cx" "is_int ?cy" by (simp_all add: xy_defined_iff)
  then have ints: "is_int ?px" "is_int ?py" by (simp_all add: is_int_double)
  from ToLength_exact [OF ints(1)] nm(1) n have px: "of_nat n = ?px"
    by (metis of_int_of_nat_eq of_nat_0_less_iff)
  from ToLength_exact [OF ints(2)] nm(2) m have py: "of_nat m = ?py"
    by (metis of_int_of_nat_eq of_nat_0_less_iff)
  have dims: "map length (grid g') = replicate n m"
    using seeding_dims [OF run] by (simp add: rep)
  then have "length (map length (grid g')) = n" by simp
  then have "int (length (grid g')) = \<lceil>?px\<rceil>"
    by (simp add: px [symmetric])
  moreover have "list_all (\<lambda>plane. int (length plane) = \<lceil>?py\<rceil>) (grid g')"
  proof -
    have "length plane = m" if "plane \<in> set (grid g')" for plane
    proof -
      from that have "length plane \<in> set (map length (grid g'))" by simp
      then show ?thesis unfolding dims by simp
    qed
    then show ?thesis by (simp add: list_all_iff py [symmetric])
  qed
  moreover have "list_all (list_all ?P) (grid g')"
  proof (rule seeding_rows [OF run])
    from r have pz: "is_int ?pz" "0 \<le> ?pz" and lr: "len r = nat \<lfloor>?pz\<rfloor>"
      by (auto simp: Array_fill_def split: if_splits)
    from pz have "\<lceil>?pz\<rceil> = \<lfloor>?pz\<rfloor>"
      by (metis is_int_def ceiling_of_int)
    with pz lr have "?P r" by simp
    then show "list_all (list_all ?P) (grid (g\<lparr>grid := a\<rparr>))"
      by (simp add: rep list_all_iff)
    fix r' :: row and x y z :: number
    assume "(x, y, z) \<in> set (seed_keys g)" and P: "?P r'"
    then have "z = ?pz / 2" by (auto simp: seed_keys_def Let_def)
    then show "?P (row_set r' z 1)" using row_set_len [OF pz P] by (simp only:)
  qed
  moreover have "grid_value g' x y z
             = (if (x, y, z) \<in> set (seed_keys g) then Some 1
                else if is_int x \<and> 0 \<le> x \<and> x < ?px \<and> is_int y \<and> 0 \<le> y \<and> y < ?py
                      \<and> is_int z \<and> 0 \<le> z \<and> z < ?pz
                then Some (- 1)
                else None)" for x y z
  proof -
    from seeding_Normal [OF run] have "grid_value g' x y z
        = (if (x, y, z) \<in> set (seed_keys g) then Some 1
           else grid_value (g\<lparr>grid := a\<rparr>) x y z)"
      by blast
    moreover have "xy_defined a x y
        \<longleftrightarrow> is_int x \<and> 0 \<le> x \<and> x < ?px \<and> is_int y \<and> 0 \<le> y \<and> y < ?py"
      unfolding rep xy_defined_replicate px py ..
    ultimately show ?thesis
      by (simp add: allocate_value [OF a])
  qed
  moreover have "initializeGrid (g\<lparr>isovalue := w\<rparr>) = Normal (g'\<lparr>isovalue := w\<rparr>)" for w
    by (simp add: initializeGrid_isovalue assms)
  ultimately show ?thesis by blast
qed

theorem initializeGrid_extents_and_fill_witness:
  "initializeGrid (unallocated 1 (vec 10 10 10) 0 (vec 0 0 0))
     = Normal (state_of (initializeGrid (unallocated 1 (vec 10 10 10) 0 (vec 0 0 0))))
   \<and> int (length (grid (state_of (initializeGrid (unallocated 1 (vec 10 10 10) 0 (vec 0 0 0)))))) = 10
   \<and> list_all (\<lambda>plane. int (length plane) = 10)
        (grid (state_of (initializeGrid (unallocated 1 (vec 10 10 10) 0 (vec 0 0 0)))))
   \<and> list_all (list_all (\<lambda>r. int (len r) = 10))
        (grid (state_of (initializeGrid (unallocated 1 (vec 10 10 10) 0 (vec 0 0 0)))))
   \<and> grid_value (state_of (initializeGrid (unallocated 1 (vec 10 10 10) 0 (vec 0 0 0)))) 0 0 0
       = Some (- 1)
   \<and> grid_value (state_of (initializeGrid (unallocated 1 (vec 10 10 10) 0 (vec 0 0 0)))) 9 9 9
       = Some (- 1)
   \<and> grid_value (state_of (initializeGrid (unallocated 1 (vec 10 10 10) 0 (vec 0 0 0)))) 5 5 5
       = Some 1
   \<and> grid_value (state_of (initializeGrid (unallocated 1 (vec 10 10 10) 0 (vec 0 0 0)))) 7 2 5
       = Some 1
   \<and> grid_value (state_of (initializeGrid (unallocated 1 (vec 10 10 10) 0 (vec 0 0 0)))) 0 0 10
       = None
   \<and> initializeGrid ((unallocated 1 (vec 10 10 10) 0 (vec 0 0 0))\<lparr>isovalue := 7\<rparr>)
       = Normal ((state_of (initializeGrid (unallocated 1 (vec 10 10 10) 0 (vec 0 0 0))))\<lparr>isovalue := 7\<rparr>)"
proof -
  let ?g = "unallocated 1 (vec 10 10 10) 0 (vec 0 0 0)"
  have "is_Normal (initializeGrid ?g)" by code_simp
  then have n: "initializeGrid ?g = Normal (state_of (initializeGrid ?g))"
    by (cases "initializeGrid ?g") simp_all
  have p: "vx (sizeV ?g) * resolution ?g = 10" "vy (sizeV ?g) * resolution ?g = 10"
    "vz (sizeV ?g) * resolution ?g = 10"
    by (simp_all add: unallocated_def vec_def)
  have keys: "seed_keys ?g = [(5, 5, 5), (6, 5, 5), (7, 5, 5), (7, 4, 5), (7, 3, 5), (7, 2, 5),
      (8, 5, 5), (9, 5, 5)]"
    by (simp add: seed_keys_def unallocated_def vec_def)
  have ints: "is_int (0 :: rat)" "is_int (9 :: rat)" "is_int (10 :: rat)"
    by (simp_all add: is_int_def)
  from initializeGrid_extents_and_fill [OF n] n show ?thesis
    unfolding p keys by (simp add: ints)
qed

text \<open>
  The claim C2 as it is written fails: with the isovalue \<open>-2\<close> the cell \<open>(0, 0, 0)\<close>
  is initialized to \<open>-1\<close>, above the isovalue; and in the grid that \<open>index.ts\<close>
  constructs (resolution 4, 10 units a side, isovalue 0) the seed cell \<open>(20, 20, 20)\<close>
  is initialized to \<open>1\<close>, above the isovalue.
\<close>

theorem initializeGrid_cells_not_below_isovalue:
  "is_Normal (initializeGrid (unallocated 1 (vec 10 10 10) (- 2) (vec 0 0 0)))
   \<and> grid_value (state_of (initializeGrid (unallocated 1 (vec 10 10 10) (- 2) (vec 0 0 0)))) 0 0 0
       = Some (- 1)
   \<and> \<not> - 1 < isovalue (state_of (initializeGrid (unallocated 1 (vec 10 10 10) (- 2) (vec 0 0 0))))
   \<and> is_Normal (initializeGrid (unallocated 4 (vec 10 10 10) 0 (vec 0 0 0)))
   \<and> grid_value (state_of (initializeGrid (unallocated 4 (vec 10 10 10) 0 (vec 0 0 0)))) 20 20 20
       = Some 1
   \<and> \<not> 1 < isovalue (state_of (initializeGrid (unallocated 4 (vec 10 10 10) 0 (vec 0 0 0))))"
  by code_simp

text \<open>
  Claim C8, as the code has it. The code has no check of its parameters and no error of
  the kind \<open>InvalidParameter\<close>. When the extent along x or y resolves to 0 or less, or
  the extent along z to less than 0, \<open>initializeGrid\<close> fails all the same: with the
  TypeError of a seeding statement that reads a missing row, or with the RangeError of
  the array allocation.
\<close>

theorem initializeGrid_nonpositive_extent:
  assumes "vx (sizeV g) * resolution g \<le> 0 \<or> vy (sizeV g) * resolution g \<le> 0
             \<or> vz (sizeV g) * resolution g < 0"
  shows "\<exists>s. initializeGrid g = Throw TypeError s \<or> initializeGrid g = Throw RangeError s"
proof (cases "initializeGrid g")
  case (Normal g')
  then obtain a where a: "allocate g = Inr a"
    and ok: "list_all (\<lambda>(x, y, z). xy_defined a x y) (seed_keys g)"
    by (rule initializeGrid_NormalD)
  from ok have "xy_defined a ((vx (sizeV g) / 2) * resolution g) ((vy (sizeV g) / 2) * resolution g)"
    by (simp add: seed_keys_def Let_def)
  with a obtain n m r where "0 < n" "0 < m"
    "int n = ToLength (vx (sizeV g) * resolution g)" 
    "int m = ToLength (vy (sizeV g) * resolution g)"
    "Array_fill (vz (sizeV g) * resolution g) (- 1) = Inr r"
    by (rule allocate_defined)
  then have "0 < vx (sizeV g) * resolution g" "0 < vy (sizeV g) * resolution g"
    "0 \<le> vz (sizeV g) * resolution g"
    by (auto simp: ToLength_def Array_fill_def split: if_splits)
  with assms show ?thesis by linarith
next
  case (Throw e s)
  with initializeGrid_Throw [OF Throw] show ?thesis by auto
qed

theorem initializeGrid_nonpositive_extent_witness:
  "(vx (sizeV (unallocated 0 (vec 10 10 10) 0 (vec 0 0 0)))
       * resolution (unallocated 0 (vec 10 10 10) 0 (vec 0 0 0)) \<le> 0
    \<or> vy (sizeV (unallocated 0 (vec 10 10 10) 0 (vec 0 0 0)))
       * resolution (unallocated 0 (vec 10 10 10) 0 (vec 0 0 0)) \<le> 0
    \<or> vz (sizeV (unallocated 0 (vec 10 10 10) 0 (vec 0 0 0)))
       * resolution (unallocated 0 (vec 10 10 10) 0 (vec 0 0 0)) < 0)
   \<and> (\<exists>s. initializeGrid (unallocated 0 (vec 10 10 10) 0 (vec 0 0 0)) = Throw TypeError s
          \<or> initializeGrid (unallocated 0 (vec 10 10 10) 0 (vec 0 0 0)) = Throw RangeError s)"
proof -
  have h: "vx (sizeV (unallocated 0 (vec 10 10 10) 0 (vec 0 0 0)))
       * resolution (unallocated 0 (vec 10 10 10) 0 (vec 0 0 0)) \<le> 0
    \<or> vy (sizeV (unallocated 0 (vec 10 10 10) 0 (vec 0 0 0)))
       * resolution (unallocated 0 (vec 10 10 10) 0 (vec 0 0 0)) \<le> 0
    \<or> vz (sizeV (unallocated 0 (vec 10 10 10) 0 (vec 0 0 0)))
       * resolution (unallocated 0 (vec 10 10 10) 0 (vec 0 0 0)) < 0"
    by (simp add: unallocated_def)
  from initializeGrid_nonpositive_extent [OF h] h show ?thesis by blast
qed

text \<open>
  The claim C8 as it is written fails: with \<open>size.z = 0\<close> the extent along z resolves
  to 0, and \<open>initializeGrid\<close> completes.
\<close>

theorem initializeGrid_zero_extent_succeeds:
  "vz (sizeV (unallocated 1 (vec 10 10 0) 0 (vec 0 0 0)))
       * resolution (unallocated 1 (vec 10 10 0) 0 (vec 0 0 0)) \<le> 0
   \<and> is_Normal (initializeGrid (unallocated 1 (vec 10 10 0) 0 (vec 0 0 0)))"
proof -
  have "is_Normal (initializeGrid (unallocated 1 (vec 10 10 0) 0 (vec 0 0 0)))"
    by code_simp
  then show ?thesis by (simp add: unallocated_def vec_def)
qed

text \<open>
  Claim C10, as the code has it. Once the array is allocated, \<open>initializeGrid\<close>
  completes if and only if the x and y index of each of the eight seeds (anchored at
  \<open>((size.x/2)*resolution, (size.y/2)*resolution, (size.z/2)*resolution)\<close>, with x offsets
  up to 4 and y offsets down to -3) is an index within the allocated extents; otherwise
  it throws the TypeError of reading a missing row. When it completes, the eight seed
  keys hold 1, every other cell within the allocated extents holds -1,
  \<open>(size.x/2)*resolution + 4\<close> is below the extent along x and
  \<open>(size.y/2)*resolution - 3\<close> is at least 0. The z index of a seed plays no part in
  the failure: the assignment to a key outside the row extends the row or sets a
  property of it.
\<close>

theorem initializeGrid_seeds:
  assumes "allocate g = Inr a"
  shows "if list_all (\<lambda>(x, y, z). xy_defined a x y) (seed_keys g)
         then \<exists>g'. initializeGrid g = Normal g'
                \<and> (\<forall>x y z. grid_value g' x y z
                      = (if (x, y, z) \<in> set (seed_keys g) then Some 1
                         else if xy_defined a x y \<and> is_int z \<and> 0 \<le> z
                                 \<and> z < vz (sizeV g) * resolution g then Some (- 1)
                         else None))
                \<and> (vx (sizeV g) / 2) * resolution g + 4 < of_nat (length a)
                \<and> 0 \<le> (vy (sizeV g) / 2) * resolution g - 3
         else \<exists>s. initializeGrid g = Throw TypeError s"
proof (cases "list_all (\<lambda>(x, y, z). xy_defined a x y) (seed_keys g)")
  case True
  let ?s = "g\<lparr>grid := a\<rparr>"
  from True have "is_Normal (for_list (\<lambda>(x, y, z). seed x y z) (seed_keys g) ?s)"
    by (intro seeding_is_Normal) simp
  then obtain g' where run: "for_list (\<lambda>(x, y, z). seed x y z) (seed_keys g) ?s = Normal g'"
    by (cases "for_list (\<lambda>(x, y, z). seed x y z) (seed_keys g) ?s") auto
  then have init: "initializeGrid g = Normal g'"
    by (simp add: initializeGrid_seeding assms)
  from seeding_Normal [OF run] have
    "\<forall>x y z. grid_value g' x y z
        = (if (x, y, z) \<in> set (seed_keys g) then Some 1 else grid_value ?s x y z)"
    by blast
  then have vals: "\<forall>x y z. grid_value g' x y z
                      = (if (x, y, z) \<in> set (seed_keys g) then Some 1
                         else if xy_defined a x y \<and> is_int z \<and> 0 \<le> z
                                 \<and> z < vz (sizeV g) * resolution g then Some (- 1)
                         else None)"
    by (simp add: allocate_value [OF assms])
  from True have "xy_defined a ((vx (sizeV g) / 2) * resolution g + 4) ((vy (sizeV g) / 2) * resolution g)"
    and "xy_defined a ((vx (sizeV g) / 2) * resolution g + 2) ((vy (sizeV g) / 2) * resolution g - 3)"
    by (simp_all add: seed_keys_def Let_def)
  then have "(vx (sizeV g) / 2) * resolution g + 4 < of_nat (length a)"
    and "0 \<le> (vy (sizeV g) / 2) * resolution g - 3"
    by (simp_all add: xy_defined_iff)
  with init vals True show ?thesis by (simp only: if_True) blast
next
  case False
  let ?s = "g\<lparr>grid := a\<rparr>"
  have "\<not> is_Normal (for_list (\<lambda>(x, y, z). seed x y z) (seed_keys g) ?s)"
  proof
    assume "is_Normal (for_list (\<lambda>(x, y, z). seed x y z) (seed_keys g) ?s)"
    then obtain g' where "for_list (\<lambda>(x, y, z). seed x y z) (seed_keys g) ?s = Normal g'"
      by (cases "for_list (\<lambda>(x, y, z). seed x y z) (seed_keys g) ?s") auto
    from seeding_Normal [OF this] False show False by simp
  qed
  then obtain e s where t: "for_list (\<lambda>(x, y, z). seed x y z) (seed_keys g) ?s = Throw e s"
    by (cases "for_list (\<lambda>(x, y, z). seed x y z) (seed_keys g) ?s") auto
  from seeding_Throw [OF t] t have "initializeGrid g = Throw TypeError s"
    by (simp add: initializeGrid_seeding assms)
  with False show ?thesis by auto
qed

theorem initializeGrid_seeds_witness:
  "allocate (unallocated 1 (vec 10 10 10) 0 (vec 0 0 0)) = Inr (uniform_grid 10 10 10 (- 1))
   \<and> list_all (\<lambda>(x, y, z). xy_defined (uniform_grid 10 10 10 (- 1)) x y)
        (seed_keys (unallocated 1 (vec 10 10 10) 0 (vec 0 0 0)))
   \<and> (\<exists>g'. initializeGrid (unallocated 1 (vec 10 10 10) 0 (vec 0 0 0)) = Normal g'
         \<and> grid_value g' 5 5 5 = Some 1 \<and> grid_value g' 7 2 5 = Some 1
         \<and> grid_value g' 9 5 5 = Some 1 \<and> grid_value g' 5 4 5 = Some (- 1)
         \<and> grid_value g' 10 5 5 = None)"
proof -
  let ?g = "unallocated 1 (vec 10 10 10) 0 (vec 0 0 0)"
  have fit: "list_all (\<lambda>(x, y, z). xy_defined (uniform_grid 10 10 10 (- 1)) x y) (seed_keys ?g)"
    by code_simp
  have keys: "seed_keys ?g = [(5, 5, 5), (6, 5, 5), (7, 5, 5), (7, 4, 5), (7, 3, 5), (7, 2, 5),
      (8, 5, 5), (9, 5, 5)]"
    by (simp add: seed_keys_def unallocated_def vec_def)
  have d: "xy_defined (uniform_grid 10 10 10 (- 1)) 5 4" "\<not> xy_defined (uniform_grid 10 10 10 (- 1)) 10 5"
    by code_simp+
  have z: "is_int (5 :: rat)" "vz (sizeV ?g) * resolution ?g = 10"
    by (simp_all add: is_int_def unallocated_def vec_def)
  from initializeGrid_seeds [OF allocate_ten] fit obtain g' where
    "initializeGrid ?g = Normal g'" and
    "\<forall>x y z. grid_value g' x y z
       = (if (x, y, z) \<in> set (seed_keys ?g) then Some 1
          else if xy_defined (uniform_grid 10 10 10 (- 1)) x y \<and> is_int z \<and> 0 \<le> z
                  \<and> z < vz (sizeV ?g) * resolution ?g then Some (- 1)
          else None)"
    by (simp only: if_True) blast
  then have "initializeGrid ?g = Normal g'
         \<and> grid_value g' 5 5 5 = Some 1 \<and> grid_value g' 7 2 5 = Some 1
         \<and> grid_value g' 9 5 5 = Some 1 \<and> grid_value g' 5 4 5 = Some (- 1)
         \<and> grid_value g' 10 5 5 = None"
    by (simp add: keys d z)
  with allocate_ten fit show ?thesis by blast
qed

text \<open>
  The claim C10 as it is written fails: with \<open>size = (10, 10, 0)\<close> at resolution 1 the
  rows are allocated with no cell, the seed \<open>(5, 5, 0)\<close> falls outside the allocated
  extent along z, and \<open>initializeGrid\<close> completes.
\<close>

theorem initializeGrid_seed_past_z_extent:
  "allocate (unallocated 1 (vec 10 10 0) 0 (vec 0 0 0)) = Inr (uniform_grid 10 10 0 (- 1))
   \<and> (5, 5, 0) \<in> set (seed_keys (unallocated 1 (vec 10 10 0) 0 (vec 0 0 0)))
   \<and> \<not> in_extent ((unallocated 1 (vec 10 10 0) 0 (vec 0 0 0))\<lparr>grid := uniform_grid 10 10 0 (- 1)\<rparr>)
          5 5 0
   \<and> is_Normal (initializeGrid (unallocated 1 (vec 10 10 0) 0 (vec 0 0 0)))"
proof -
  have "(5, 5, 0) \<in> set (seed_keys (unallocated 1 (vec 10 10 0) 0 (vec 0 0 0)))"
    by (simp add: seed_keys_def unallocated_def vec_def)
  moreover have "\<not> in_extent
      ((unallocated 1 (vec 10 10 0) 0 (vec 0 0 0))\<lparr>grid := uniform_grid 10 10 0 (- 1)\<rparr>) 5 5 0"
    by code_simp
  moreover have "is_Normal (initializeGrid (unallocated 1 (vec 10 10 0) 0 (vec 0 0 0)))"
    by code_simp
  ultimately show ?thesis using allocate_flat by blast
qed

section \<open>Rendering and the previous mesh\<close>

lemma generateMesh_after_march:
  "generateMesh (w\<lparr>voxels := state_of (marchCubes K g)\<rparr>)
     = Normal (w\<lparr>voxels := (state_of (marchCubes K g))\<lparr>mesh := Some (next_ref w)\<rparr>,
                 meshes := (meshes w)(next_ref w \<mapsto>
                    \<lparr>positions = concat (map (\<lambda>v. [vx v, vy v, vz v])
                                    (meshVertexes (state_of (marchCubes K g)))),
                     disposed = False\<rparr>),
                 next_ref := Suc (next_ref w)\<rparr>)"
  using marchCubes_triples [of K g] by (simp add: generateMesh_def dvd_eq_mod_eq_0)

lemma render_dispose_voxels: "voxels (render_dispose w) = voxels w"
  by (simp add: render_dispose_def removeMeshAndDispose_def split: option.splits)

lemma render_dispose_fields:
  "next_ref (render_dispose w) = next_ref w" "console (render_dispose w) = console w"
  by (simp_all add: render_dispose_def removeMeshAndDispose_def split: option.splits)

lemma render_Throw:
  "marchCubes K (voxels w) = Throw e g
     \<Longrightarrow> render K w = Throw e ((render_dispose w)\<lparr>voxels := g\<rparr>)"
  by (simp add: render_def Let_def render_dispose_voxels)

text \<open>
  Claim C1, as the code has it. \<open>render\<close> removes the previous mesh from the scene and
  disposes of it first, before the extraction starts. When the extraction throws,
  \<open>render\<close> throws the same error from the state in which the previous mesh is already
  removed, with no mesh added. When the extraction completes, the vertex list has a
  length divisible by 3, the mesh generation therefore does not throw (nothing is logged),
  and exactly one new mesh, built from the whole vertex list, is added to the scene.
\<close>

theorem render_removes_previous_mesh_first:
  "children (render_dispose w)
     = (case mesh (voxels w) of None \<Rightarrow> children w | Some m \<Rightarrow> remove1 m (children w))
   \<and> meshes (render_dispose w)
     = (case mesh (voxels w) of
          None \<Rightarrow> meshes w
        | Some m \<Rightarrow> (meshes w)(m := map_option (\<lambda>ob. ob\<lparr>disposed := True\<rparr>) (meshes w m)))
   \<and> (case marchCubes K (voxels w) of
        Throw e g \<Rightarrow>
          render K w = Throw e ((render_dispose w)\<lparr>voxels := g\<rparr>)
      | Normal g \<Rightarrow>
          3 dvd length (meshVertexes g)
        \<and> (\<exists>w'. render K w = Normal w'
             \<and> voxels w' = g\<lparr>mesh := Some (next_ref w)\<rparr>
             \<and> children w' = remove1 (next_ref w) (children (render_dispose w)) @ [next_ref w]
             \<and> meshes w' = (meshes (render_dispose w))(next_ref w \<mapsto>
                    \<lparr>positions = concat (map (\<lambda>v. [vx v, vy v, vz v]) (meshVertexes g)),
                     disposed = False\<rparr>)
             \<and> console w' = console w))"
proof (intro conjI)
  show "children (render_dispose w)
     = (case mesh (voxels w) of None \<Rightarrow> children w | Some m \<Rightarrow> remove1 m (children w))"
    by (simp add: render_dispose_def removeMeshAndDispose_def split: option.splits)
next
  show "meshes (render_dispose w)
     = (case mesh (voxels w) of
          None \<Rightarrow> meshes w
        | Some m \<Rightarrow> (meshes w)(m := map_option (\<lambda>ob. ob\<lparr>disposed := True\<rparr>) (meshes w m)))"
    by (simp add: render_dispose_def removeMeshAndDispose_def split: option.splits)
next
  show "case marchCubes K (voxels w) of
        Throw e g \<Rightarrow>
          render K w = Throw e ((render_dispose w)\<lparr>voxels := g\<rparr>)
      | Normal g \<Rightarrow>
          3 dvd length (meshVertexes g)
        \<and> (\<exists>w'. render K w = Normal w'
             \<and> voxels w' = g\<lparr>mesh := Some (next_ref w)\<rparr>
             \<and> children w' = remove1 (next_ref w) (children (render_dispose w)) @ [next_ref w]
             \<and> meshes w' = (meshes (render_dispose w))(next_ref w \<mapsto>
                    \<lparr>positions = concat (map (\<lambda>v. [vx v, vy v, vz v]) (meshVertexes g)),
                     disposed = False\<rparr>)
             \<and> console w' = console w)"
  proof (cases "marchCubes K (voxels w)")
    case (Throw e g)
    then show ?thesis
      by (simp add: render_Throw)
  next
    case (Normal g)
    then have g: "g = state_of (marchCubes K (voxels w))" by simp
    have three: "3 dvd length (meshVertexes g)"
      unfolding g by (rule marchCubes_triples)
    have "generateMesh ((render_dispose w)\<lparr>voxels := g\<rparr>)
       = Normal ((render_dispose w)\<lparr>voxels := g\<lparr>mesh := Some (next_ref w)\<rparr>,
                 meshes := (meshes (render_dispose w))(next_ref w \<mapsto>
                    \<lparr>positions = concat (map (\<lambda>v. [vx v, vy v, vz v]) (meshVertexes g)),
                     disposed = False\<rparr>),
                 next_ref := Suc (next_ref w)\<rparr>)"
      unfolding g using generateMesh_after_march [where w = "render_dispose w" and K = K and g = "voxels w"]
      by (simp add: render_dispose_fields)
    with Normal three show ?thesis
      by (simp add: render_def Let_def render_dispose_voxels scene_add_def render_dispose_fields)
  qed
qed

text \<open>
  The claim C1 as it is written fails: in \<open>stale_world\<close> the extraction throws a TypeError
  (the grid has fewer rows than \<open>size * resolution\<close>), no vertex list is produced, and
  yet the previous mesh has left the scene and is disposed.
\<close>

theorem render_failure_after_removal:
  "children stale_world = [0] \<and> mesh (voxels stale_world) = Some 0
   \<and> map_option disposed (meshes stale_world 0) = Some False
   \<and> thrown (render K0 stale_world) = Some TypeError
   \<and> children (state_of (render K0 stale_world)) = []
   \<and> map_option disposed (meshes (state_of (render K0 stale_world)) 0) = Some True"
proof -
  have "thrown (marchCubes K0 (voxels stale_world)) = Some TypeError"
    by code_simp
  then obtain g where "marchCubes K0 (voxels stale_world) = Throw TypeError g"
    by (cases "marchCubes K0 (voxels stale_world)") auto
  then have "render K0 stale_world = Throw TypeError ((render_dispose stale_world)\<lparr>voxels := g\<rparr>)"
    by (rule render_Throw)
  then show ?thesis
    by (simp add: stale_world_def render_dispose_def removeMeshAndDispose_def)
qed

end
